theory Spec2Isabelle
  imports Main "HOL-Library.Word" "HOL-Library.Char_ord"
begin

unbundle bit_operations_syntax

section \<open>Data model\<close>

text \<open>
  A Go \<open>[]byte\<close> is a list of 8-bit words, \<open>uint64\<close> is \<open>64 word\<close>, and Go's \<open>int\<close> is
  the 64-bit signed integer of the supported platforms, read off a word with \<open>sint\<close>.
  Lengths and loop indices stay far below \<open>2 ^ 63\<close> and are natural numbers or integers.
\<close>

type_synonym byte = "8 word"

text \<open>
  The dynamic values a record field decodes to (Go's \<open>interface{}\<close> holding \<open>nil\<close>,
  \<open>int64\<close>, \<open>float64\<close>, \<open>[]byte\<close> or \<open>string\<close>). A \<open>float64\<close> is kept as its IEEE-754
  bit pattern, which is what \<open>math.Float64frombits\<close> reinterprets.
\<close>

datatype val =
    VNull
  | VInt "64 word"
  | VFloat "64 word"
  | VBlob "byte list"
  | VText "byte list"

text \<open>The values built by \<open>errors.New\<close> in \<open>repair/utils.go\<close>.\<close>

datatype error =
    InvalidHeaderLength
  | BufferTooShort
  | BufferTooShortForBlob
  | BufferTooShortForString
  | UnknownSerialType

text \<open>
  Run-time panics of Go's index and slice expressions. \<open>s[i]\<close> panics when \<open>i\<close> is not
  below the length (\<open>IndexOutOfRange\<close>). \<open>s[lo:hi]\<close> panics when \<open>hi\<close> exceeds the
  capacity (\<open>SliceHighOutOfRange\<close>) and otherwise when \<open>lo > hi\<close>. The Go run time words
  the second failure in one way; the model tells apart a lower bound that lies outside
  the slice (\<open>SliceLowOutOfRange\<close>) from a pair of bounds that both lie inside the slice
  and are inverted (\<open>SliceLowAboveHigh\<close>).
\<close>

datatype panic =
    IndexOutOfRange
  | SliceHighOutOfRange
  | SliceLowOutOfRange
  | SliceLowAboveHigh

datatype 'a exec = Returns 'a | Panics panic

text \<open>Sequencing: a panic ends the computation.\<close>

definition and_then :: "'a exec \<Rightarrow> ('a \<Rightarrow> 'b exec) \<Rightarrow> 'b exec" where
  "and_then m f = (case m of Panics p \<Rightarrow> Panics p | Returns x \<Rightarrow> f x)"

section \<open>Varint decoder (\<open>readVarint\<close>)\<close>

text \<open>
  The decoder as a function of the buffer. Its one index expression \<open>buf[i]\<close> stands
  behind the test \<open>i >= len(buf)\<close>; the run-time check of that expression is written out
  in \<open>readVarint_checked\<close> below, which is what the record decoder and the page scanner
  call.
\<close>

function readVarint_loop :: "byte list \<Rightarrow> nat \<Rightarrow> 64 word \<Rightarrow> 64 word \<times> nat" where
  "readVarint_loop buf i v =
     (if i < 9 then
        (if length buf \<le> i then (0, 0)
         else
           let b = buf ! i;
               v' = push_bit 7 v OR ucast (b AND 0x7f)
           in if b < 0x80 then (v', i + 1) else readVarint_loop buf (i + 1) v')
      else if 9 \<le> length buf then (v, 9)
      else (0, 0))"
  by pat_completeness auto
termination
  by (relation "measure (\<lambda>(buf, i, v). 9 - i)") auto

declare readVarint_loop.simps [simp del]

definition readVarint :: "byte list \<Rightarrow> 64 word \<times> nat" where
  "readVarint buf = readVarint_loop buf 0 0"

section \<open>Serial-type value decoder (\<open>parseSerialType\<close>)\<close>

text \<open>\<open>binary.BigEndian.Uint16/32/64\<close> on a buffer already checked to be long enough.\<close>

definition be_uint16 :: "byte list \<Rightarrow> 16 word" where
  "be_uint16 b = ucast (b ! 1) OR push_bit 8 (ucast (b ! 0))"

definition be_uint32 :: "byte list \<Rightarrow> 32 word" where
  "be_uint32 b =
     ucast (b ! 3) OR push_bit 8 (ucast (b ! 2)) OR push_bit 16 (ucast (b ! 1))
       OR push_bit 24 (ucast (b ! 0))"

definition be_uint64 :: "byte list \<Rightarrow> 64 word" where
  "be_uint64 b =
     ucast (b ! 7) OR push_bit 8 (ucast (b ! 6)) OR push_bit 16 (ucast (b ! 5))
       OR push_bit 24 (ucast (b ! 4)) OR push_bit 32 (ucast (b ! 3))
       OR push_bit 40 (ucast (b ! 2)) OR push_bit 48 (ucast (b ! 1))
       OR push_bit 56 (ucast (b ! 0))"

text \<open>
  The decoder as a function of the serial-type code and the buffer. Every index and
  slice expression of it stands behind a length test; their run-time checks are written
  out in \<open>parseSerialType_checked\<close> below.
\<close>

definition parseSerialType :: "64 word \<Rightarrow> byte list \<Rightarrow> error + (val \<times> nat)" where
  "parseSerialType t buf =
     (if t = 0 then Inr (VNull, 0)
      else if t = 1 then
        (if length buf < 1 then Inl BufferTooShort
         else Inr (VInt (scast (buf ! 0)), 1))
      else if t = 2 then
        (if length buf < 2 then Inl BufferTooShort
         else Inr (VInt (scast (be_uint16 buf)), 2))
      else if t = 3 then
        (if length buf < 3 then Inl BufferTooShort
         else Inr (VInt (push_bit 16 (scast (buf ! 0)) OR push_bit 8 (ucast (buf ! 1))
                          OR ucast (buf ! 2)), 3))
      else if t = 4 then
        (if length buf < 4 then Inl BufferTooShort
         else Inr (VInt (scast (be_uint32 buf)), 4))
      else if t = 5 then
        (if length buf < 6 then Inl BufferTooShort
         else Inr (VInt (push_bit 40 (scast (buf ! 0)) OR push_bit 32 (ucast (buf ! 1))
                          OR ucast (be_uint32 (drop 2 buf))), 6))
      else if t = 6 then
        (if length buf < 8 then Inl BufferTooShort
         else Inr (VInt (be_uint64 buf), 8))
      else if t = 7 then
        (if length buf < 8 then Inl BufferTooShort
         else Inr (VFloat (be_uint64 buf), 8))
      else if t = 8 then Inr (VInt 0, 0)
      else if t = 9 then Inr (VInt 1, 0)
      else if 12 \<le> t \<and> t mod 2 = 0 then
        (let n = unat ((t - 12) div 2)
         in if length buf < n then Inl BufferTooShortForBlob
            else Inr (VBlob (take n buf), n))
      else if 13 \<le> t \<and> t mod 2 = 1 then
        (let n = unat ((t - 13) div 2)
         in if length buf < n then Inl BufferTooShortForString
            else Inr (VText (take n buf), n))
      else Inl UnknownSerialType)"

section \<open>Index and slice expressions\<close>

text \<open>
  \<open>index s i\<close> is Go's \<open>s[i]\<close>, \<open>slice s lo hi\<close> is \<open>s[lo:hi]\<close> and \<open>slice_from s lo\<close> is
  \<open>s[lo:]\<close>, each with its run-time check. The page buffer is allocated by \<open>Run\<close> with
  \<open>make([]byte, PageSize)\<close>, so its capacity is its length, and every slice the scanner
  and the decoders work on is a window of that buffer: an index or a bound that the
  check of its own slice accepts lies inside the page. The upper bound of a slice
  expression is checked here against the length of the slice, which is never above its
  capacity.
\<close>

definition index :: "'a list \<Rightarrow> nat \<Rightarrow> 'a exec" where
  "index s i = (if i < length s then Returns (s ! i) else Panics IndexOutOfRange)"

definition slice :: "'a list \<Rightarrow> int \<Rightarrow> int \<Rightarrow> 'a list exec" where
  "slice s lo hi =
     (if hi < 0 \<or> int (length s) < hi then Panics SliceHighOutOfRange
      else if lo < 0 \<or> int (length s) < lo then Panics SliceLowOutOfRange
      else if hi < lo then Panics SliceLowAboveHigh
      else Returns (take (nat (hi - lo)) (drop (nat lo) s)))"

definition slice_from :: "'a list \<Rightarrow> int \<Rightarrow> 'a list exec" where
  "slice_from s lo = slice s lo (int (length s))"

section \<open>The decoders with their run-time checks\<close>

text \<open>\<open>readVarint\<close> with the check of \<open>buf[i]\<close>.\<close>

function readVarint_checked_loop ::
  "byte list \<Rightarrow> nat \<Rightarrow> 64 word \<Rightarrow> (64 word \<times> nat) exec" where
  "readVarint_checked_loop buf i v =
     (if i < 9 then
        (if length buf \<le> i then Returns (0, 0)
         else
           (case index buf i of
              Panics p \<Rightarrow> Panics p
            | Returns b \<Rightarrow>
                (let v' = push_bit 7 v OR ucast (b AND 0x7f)
                 in if b < 0x80 then Returns (v', i + 1)
                    else readVarint_checked_loop buf (i + 1) v')))
      else if 9 \<le> length buf then Returns (v, 9)
      else Returns (0, 0))"
  by pat_completeness auto
termination
  by (relation "measure (\<lambda>(buf, i, v). 9 - i)") auto

declare readVarint_checked_loop.simps [simp del]

definition readVarint_checked :: "byte list \<Rightarrow> (64 word \<times> nat) exec" where
  "readVarint_checked buf = readVarint_checked_loop buf 0 0"

text \<open>
  \<open>binary.BigEndian.Uint16/32/64\<close>: each begins with an index expression on the last
  byte it reads (\<open>_ = b[1]\<close>, \<open>_ = b[3]\<close>, \<open>_ = b[7]\<close>).
\<close>

definition BigEndian_Uint16 :: "byte list \<Rightarrow> 16 word exec" where
  "BigEndian_Uint16 b = and_then (index b 1) (\<lambda>last. Returns (be_uint16 b))"

definition BigEndian_Uint32 :: "byte list \<Rightarrow> 32 word exec" where
  "BigEndian_Uint32 b = and_then (index b 3) (\<lambda>last. Returns (be_uint32 b))"

definition BigEndian_Uint64 :: "byte list \<Rightarrow> 64 word exec" where
  "BigEndian_Uint64 b = and_then (index b 7) (\<lambda>last. Returns (be_uint64 b))"

text \<open>\<open>parseSerialType\<close> with the checks of its index and slice expressions.\<close>

definition parseSerialType_checked ::
  "64 word \<Rightarrow> byte list \<Rightarrow> (error + (val \<times> nat)) exec" where
  "parseSerialType_checked t buf =
     (if t = 0 then Returns (Inr (VNull, 0))
      else if t = 1 then
        (if length buf < 1 then Returns (Inl BufferTooShort)
         else and_then (index buf 0) (\<lambda>b0. Returns (Inr (VInt (scast b0), 1))))
      else if t = 2 then
        (if length buf < 2 then Returns (Inl BufferTooShort)
         else and_then (BigEndian_Uint16 buf) (\<lambda>w. Returns (Inr (VInt (scast w), 2))))
      else if t = 3 then
        (if length buf < 3 then Returns (Inl BufferTooShort)
         else
           and_then (index buf 0) (\<lambda>b0.
           and_then (index buf 1) (\<lambda>b1.
           and_then (index buf 2) (\<lambda>b2.
             Returns (Inr (VInt (push_bit 16 (scast b0) OR push_bit 8 (ucast b1)
                                   OR ucast b2), 3))))))
      else if t = 4 then
        (if length buf < 4 then Returns (Inl BufferTooShort)
         else and_then (BigEndian_Uint32 buf) (\<lambda>w. Returns (Inr (VInt (scast w), 4))))
      else if t = 5 then
        (if length buf < 6 then Returns (Inl BufferTooShort)
         else
           and_then (index buf 0) (\<lambda>b0.
           and_then (index buf 1) (\<lambda>b1.
           and_then (slice_from buf 2) (\<lambda>rest.
           and_then (BigEndian_Uint32 rest) (\<lambda>w.
             Returns (Inr (VInt (push_bit 40 (scast b0) OR push_bit 32 (ucast b1)
                                   OR ucast w), 6)))))))
      else if t = 6 then
        (if length buf < 8 then Returns (Inl BufferTooShort)
         else and_then (BigEndian_Uint64 buf) (\<lambda>w. Returns (Inr (VInt w, 8))))
      else if t = 7 then
        (if length buf < 8 then Returns (Inl BufferTooShort)
         else and_then (BigEndian_Uint64 buf) (\<lambda>w. Returns (Inr (VFloat w, 8))))
      else if t = 8 then Returns (Inr (VInt 0, 0))
      else if t = 9 then Returns (Inr (VInt 1, 0))
      else if 12 \<le> t \<and> t mod 2 = 0 then
        (let n = unat ((t - 12) div 2)
         in if length buf < n then Returns (Inl BufferTooShortForBlob)
            else and_then (slice buf 0 (int n)) (\<lambda>b. Returns (Inr (VBlob b, n))))
      else if 13 \<le> t \<and> t mod 2 = 1 then
        (let n = unat ((t - 13) div 2)
         in if length buf < n then Returns (Inl BufferTooShortForString)
            else and_then (slice buf 0 (int n)) (\<lambda>b. Returns (Inr (VText b, n))))
      else Returns (Inl UnknownSerialType))"

section \<open>Record decoder (\<open>parseRecord\<close>)\<close>

text \<open>The loop collecting the serial-type codes of the record header.\<close>

function parseRecord_types :: "byte list \<Rightarrow> nat \<Rightarrow> 64 word list \<Rightarrow> 64 word list exec" where
  "parseRecord_types header idx types =
     (if idx < length header then
        (case slice_from header (int idx) of
           Panics p \<Rightarrow> Panics p
         | Returns buf \<Rightarrow>
             (case readVarint_checked buf of
                Panics p \<Rightarrow> Panics p
              | Returns (t, n) \<Rightarrow>
                  if n = 0 then Returns types
                  else parseRecord_types header (idx + n) (types @ [t])))
      else Returns types)"
  by pat_completeness auto
termination
  by (relation "measure (\<lambda>(header, idx, types). length header - idx)") auto

declare parseRecord_types.simps [simp del]

text \<open>The loop decoding one body value per serial-type code.\<close>

fun parseRecord_values ::
  "64 word list \<Rightarrow> byte list \<Rightarrow> nat \<Rightarrow> val list \<Rightarrow> (error + val list) exec" where
  "parseRecord_values [] body bodyIdx values = Returns (Inr values)"
| "parseRecord_values (t # ts) body bodyIdx values =
     (case slice_from body (int bodyIdx) of
        Panics p \<Rightarrow> Panics p
      | Returns buf \<Rightarrow>
          (case parseSerialType_checked t buf of
             Panics p \<Rightarrow> Panics p
           | Returns (Inl err) \<Rightarrow> Returns (Inl err)
           | Returns (Inr (v, n)) \<Rightarrow>
               parseRecord_values ts body (bodyIdx + n) (values @ [v])))"

definition parseRecord :: "byte list \<Rightarrow> (error + val list) exec" where
  "parseRecord payload =
     (case readVarint_checked payload of
        Panics p \<Rightarrow> Panics p
      | Returns (headerLen, n) \<Rightarrow>
          if n = 0 \<or> int (length payload) < sint headerLen
          then Returns (Inl InvalidHeaderLength)
          else
            (case slice payload (int n) (uint headerLen) of
               Panics p \<Rightarrow> Panics p
             | Returns header \<Rightarrow>
                 (case slice_from payload (uint headerLen) of
                    Panics p \<Rightarrow> Panics p
                  | Returns body \<Rightarrow>
                      (case parseRecord_types header 0 [] of
                         Panics p \<Rightarrow> Panics p
                       | Returns types \<Rightarrow> parseRecord_values types body 0 []))))"

section \<open>Row dispatch (\<open>tryRecoverRow\<close>)\<close>

record ColumnInfo =
  ColName :: string
  Type :: string
  Pk :: int

record TableInfo =
  Name :: string
  Columns :: "ColumnInfo list"

text \<open>
  \<open>strings.ToUpper\<close> of the Go library. A Go string is its bytes. When every byte is
  below \<open>0x80\<close> the library takes its ASCII path, which moves the letters \<open>a\<close> to \<open>z\<close>
  down by 32 and keeps every other byte. Otherwise it returns
  \<open>strings.Map(unicode.ToUpper, s)\<close>, which decodes the runes of the string and maps each
  through the Unicode case tables of the library; these tables are no part of the
  repository, and that path is the parameter \<open>unicodeUpper\<close>.
\<close>

type_synonym upper_fn = "string \<Rightarrow> string"

definition toUpper_char :: "char \<Rightarrow> char" where
  "toUpper_char c =
     (if CHR ''a'' \<le> c \<and> c \<le> CHR ''z'' then char_of (of_char c - (32 :: nat)) else c)"

definition isASCII :: "string \<Rightarrow> bool" where
  "isASCII s = list_all (\<lambda>c. (of_char c :: nat) < 128) s"

definition ToUpper :: "upper_fn \<Rightarrow> string \<Rightarrow> string" where
  "ToUpper unicodeUpper s = (if isASCII s then map toUpper_char s else unicodeUpper s)"

text \<open>\<open>strings.Join(elems, sep)\<close>.\<close>

fun Join :: "string list \<Rightarrow> string \<Rightarrow> string" where
  "Join [] sep = []"
| "Join [x] sep = x"
| "Join (x # y # ys) sep = x @ sep @ Join (y # ys) sep"

text \<open>
  The output database is an abstract state \<open>'db\<close>; \<open>Exec\<close> stands for \<open>outDB.Exec\<close> and
  returns whether its error is \<open>nil\<close> together with the database after the statement.
\<close>

type_synonym 'db exec_fn = "'db \<Rightarrow> string \<Rightarrow> val list \<Rightarrow> bool \<times> 'db"

text \<open>
  One round of the loop that fills the INTEGER PRIMARY KEY alias at column \<open>i\<close>. The
  index \<open>i\<close> ranges over the columns, and the vector has as many entries as the table has
  columns.
\<close>

definition fill_alias ::
  "upper_fn \<Rightarrow> 64 word \<Rightarrow> ColumnInfo list \<Rightarrow> val list \<Rightarrow> nat \<Rightarrow> val list" where
  "fill_alias unicodeUpper rowID cols insertValues i =
     (if Pk (cols ! i) = 1 \<and> ToUpper unicodeUpper (Type (cols ! i)) = ''INTEGER'' then
        (if insertValues ! i = VNull then insertValues[i := VInt rowID] else insertValues)
      else insertValues)"

definition insert_query :: "TableInfo \<Rightarrow> nat \<Rightarrow> string" where
  "insert_query table k =
     ''INSERT OR IGNORE INTO '' @ Name table @ '' VALUES (''
       @ Join (replicate k ''?'') '', '' @ '')''"

fun tryRecoverRow ::
  "upper_fn \<Rightarrow> 'db exec_fn \<Rightarrow> 64 word \<Rightarrow> val list \<Rightarrow> TableInfo list \<Rightarrow> 'db \<Rightarrow> 'db" where
  "tryRecoverRow unicodeUpper Exec rowID values [] outDB = outDB"
| "tryRecoverRow unicodeUpper Exec rowID values (table # tables) outDB =
     (if length (Columns table) \<noteq> length values
      then tryRecoverRow unicodeUpper Exec rowID values tables outDB
      else
        (let insertValues =
               foldl (fill_alias unicodeUpper rowID (Columns table)) values
                 [0 ..< length (Columns table)];
             query = insert_query table (length values)
         in (case Exec outDB query insertValues of
               (ok, outDB') \<Rightarrow>
                 if ok then outDB'
                 else tryRecoverRow unicodeUpper Exec rowID values tables outDB')))"

section \<open>Page scanner (\<open>processPage\<close>)\<close>

text \<open>
  The outcome of one round of the cell loop: \<open>Break\<close> leaves the loop, \<open>Continue\<close> goes
  on with the next cell, \<open>Abort\<close> is a panic. Each carries the database reached.
\<close>

datatype 'db flow = Break 'db | Continue 'db | Abort panic 'db

definition processPage_cell ::
  "upper_fn \<Rightarrow> 'db exec_fn \<Rightarrow> byte list \<Rightarrow> nat \<Rightarrow> TableInfo list \<Rightarrow> nat \<Rightarrow> 'db \<Rightarrow> 'db flow"
  where
  "processPage_cell unicodeUpper Exec pageData headerOffset tables i outDB =
     (let ptrOffset = headerOffset + 8 + i * 2 in
      if length pageData < ptrOffset + 2 then Break outDB
      else
        (case slice pageData (int ptrOffset) (int ptrOffset + 2) of
           Panics p \<Rightarrow> Abort p outDB
         | Returns ptr \<Rightarrow>
        (case BigEndian_Uint16 ptr of
           Panics p \<Rightarrow> Abort p outDB
         | Returns cellOffset \<Rightarrow>
             if length pageData \<le> unat cellOffset then Continue outDB
             else
        (case slice_from pageData (uint cellOffset) of
           Panics p \<Rightarrow> Abort p outDB
         | Returns cell \<Rightarrow>
        (case readVarint_checked cell of
           Panics p \<Rightarrow> Abort p outDB
         | Returns (payloadSize, n) \<Rightarrow>
             if n = 0 then Continue outDB
             else
        (case slice_from cell (int n) of
           Panics p \<Rightarrow> Abort p outDB
         | Returns rest \<Rightarrow>
        (case readVarint_checked rest of
           Panics p \<Rightarrow> Abort p outDB
         | Returns (rowID, n2) \<Rightarrow>
             if n2 = 0 then Continue outDB
             else
               (let totalHeaderSize = n + n2 in
                if int (length cell) - int totalHeaderSize < sint payloadSize
                then Continue outDB
                else
        (case slice cell (int totalHeaderSize) (int totalHeaderSize + sint payloadSize) of
           Panics p \<Rightarrow> Abort p outDB
         | Returns payload \<Rightarrow>
        (case parseRecord payload of
           Panics p \<Rightarrow> Abort p outDB
         | Returns (Inl err) \<Rightarrow> Continue outDB
         | Returns (Inr values) \<Rightarrow>
             Continue (tryRecoverRow unicodeUpper Exec rowID values tables outDB)))))))))))"

function processPage_loop ::
  "upper_fn \<Rightarrow> 'db exec_fn \<Rightarrow> byte list \<Rightarrow> nat \<Rightarrow> TableInfo list \<Rightarrow> nat \<Rightarrow> nat \<Rightarrow> 'db
     \<Rightarrow> unit exec \<times> 'db" where
  "processPage_loop unicodeUpper Exec pageData headerOffset tables numCells i outDB =
     (if i < numCells then
        (case processPage_cell unicodeUpper Exec pageData headerOffset tables i outDB of
           Break outDB' \<Rightarrow> (Returns (), outDB')
         | Abort p outDB' \<Rightarrow> (Panics p, outDB')
         | Continue outDB' \<Rightarrow>
             processPage_loop unicodeUpper Exec pageData headerOffset tables numCells (i + 1)
               outDB')
      else (Returns (), outDB))"
  by pat_completeness auto
termination
  by (relation "measure (\<lambda>(unicodeUpper, Exec, pageData, headerOffset, tables, numCells, i,
         outDB). numCells - i)") auto

declare processPage_loop.simps [simp del]

text \<open>
  \<open>processPage\<close> returns Go's \<open>error\<close> result (\<open>None\<close> is \<open>nil\<close>) or panics, together with
  the database reached.
\<close>

definition processPage ::
  "upper_fn \<Rightarrow> 'db exec_fn \<Rightarrow> byte list \<Rightarrow> int \<Rightarrow> TableInfo list \<Rightarrow> 'db
     \<Rightarrow> error option exec \<times> 'db" where
  "processPage unicodeUpper Exec pageData pageIndex tables outDB =
     (let headerOffset = (if pageIndex = 0 then 100 else 0 :: nat) in
      if length pageData \<le> headerOffset then (Returns None, outDB)
      else
        (case index pageData headerOffset of
           Panics p \<Rightarrow> (Panics p, outDB)
         | Returns flag \<Rightarrow>
             if flag \<noteq> 0x0D then (Returns None, outDB)
             else
        (case slice pageData (int headerOffset + 3) (int headerOffset + 5) of
           Panics p \<Rightarrow> (Panics p, outDB)
         | Returns hdr \<Rightarrow>
        (case BigEndian_Uint16 hdr of
           Panics p \<Rightarrow> (Panics p, outDB)
         | Returns numCells \<Rightarrow>
        (case processPage_loop unicodeUpper Exec pageData headerOffset tables
                (unat numCells) 0 outDB of
           (Panics p, outDB') \<Rightarrow> (Panics p, outDB')
         | (Returns u, outDB') \<Rightarrow> (Returns None, outDB'))))))"

text \<open>
  A recording sink: it behaves as \<open>Exec\<close> and appends every call, with its outcome, to a
  log kept beside the database. It is used to count the insert calls of a run.
\<close>

definition traced ::
  "'db exec_fn \<Rightarrow> ('db \<times> (string \<times> val list \<times> bool) list) exec_fn" where
  "traced Exec s query args =
     (case Exec (fst s) query args of
        (ok, db') \<Rightarrow> (ok, (db', snd s @ [(query, args, ok)])))"

section \<open>The dispatch policy as the specification words it\<close>

text \<open>
  Two characters are the same letter in either case when they are equal, or one is a
  capital letter \<open>A\<close> to \<open>Z\<close> and the other is the small letter that goes with it, 32
  places further on. Two strings are equal case-insensitively when they have the same
  length and agree in this way place by place.
\<close>

definition capital :: "char \<Rightarrow> bool" where
  "capital c = (65 \<le> (of_char c :: nat) \<and> (of_char c :: nat) \<le> 90)"

definition same_letter :: "char \<Rightarrow> char \<Rightarrow> bool" where
  "same_letter c d =
     (c = d \<or> (capital c \<and> (of_char d :: nat) = of_char c + 32)
            \<or> (capital d \<and> (of_char c :: nat) = of_char d + 32))"

definition ci_equal :: "string \<Rightarrow> string \<Rightarrow> bool" where
  "ci_equal a b = list_all2 same_letter a b"







text \<open>
  The sink of the reference implementation wraps an insert-or-ignore statement against
  the output database: the statement names the table and has one placeholder for each
  value, the placeholders separated by a comma and a blank.
\<close>

fun placeholders :: "nat \<Rightarrow> string" where
  "placeholders 0 = []"
| "placeholders (Suc 0) = ''?''"
| "placeholders (Suc (Suc k)) = ''?, '' @ placeholders (Suc k)"


section \<open>The serial-type table as the specification words it\<close>

text \<open>The big-endian unsigned value of a byte string.\<close>

definition be_nat :: "byte list \<Rightarrow> nat" where
  "be_nat bs = foldl (\<lambda>acc b. acc * 256 + unat b) 0 bs"

text \<open>
  The big-endian signed (two's complement) value of a byte string of \<open>8 * length bs\<close> bits.
\<close>

definition be_signed :: "byte list \<Rightarrow> int" where
  "be_signed bs =
     (if int (be_nat bs) < 2 ^ (8 * length bs - 1) then int (be_nat bs)
      else int (be_nat bs) - 2 ^ (8 * length bs))"

text \<open>
  The body width of a serial-type code, the "Body bytes" column of the table; the
  reserved codes 10 and 11 have none.
\<close>

definition serial_width :: "nat \<Rightarrow> nat option" where
  "serial_width c =
     (if c = 0 then Some 0 else if c = 1 then Some 1 else if c = 2 then Some 2
      else if c = 3 then Some 3 else if c = 4 then Some 4 else if c = 5 then Some 6
      else if c = 6 then Some 8 else if c = 7 then Some 8
      else if c = 8 \<or> c = 9 then Some 0
      else if c = 10 \<or> c = 11 then None
      else if even c then Some ((c - 12) div 2) else Some ((c - 13) div 2))"

text \<open>
  The bytes of a buffer poured into a word, most significant first: the shape shared by
  \<open>be_uint16\<close>, \<open>be_uint32\<close> and \<open>be_uint64\<close>.
\<close>

definition be_word :: "byte list \<Rightarrow> 'a::len word" where
  "be_word bs = foldl (\<lambda>acc b. ucast b OR push_bit 8 acc) 0 bs"

section \<open>Counting the calls of a run\<close>

text \<open>The number of calls in a log that the sink accepted.\<close>

definition placed :: "(string \<times> val list \<times> bool) list \<Rightarrow> nat" where
  "placed calls = length (filter (\<lambda>(query, args, ok). ok) calls)"


text \<open>The rows handed to the dispatcher, folded over the database.\<close>

definition dispatch_all ::
  "upper_fn \<Rightarrow> 'db exec_fn \<Rightarrow> TableInfo list \<Rightarrow> (64 word \<times> val list) list \<Rightarrow> 'db
     \<Rightarrow> 'db" where
  "dispatch_all unicodeUpper Exec tables rows s =
     foldl (\<lambda>s (rowID, values). tryRecoverRow unicodeUpper Exec rowID values tables s) s rows"


section \<open>Example inputs\<close>

text \<open>
  A 512-byte leaf page with one cell at offset 10: payload size 1, rowid 1, and the
  one-byte payload \<open>00\<close>, a record whose header length is 0.
\<close>

definition zero_header_page :: "byte list" where
  "zero_header_page =
     [0x0D, 0, 0, 0, 1, 0, 0, 0, 0x00, 0x0A, 0x01, 0x01, 0x00] @ replicate 499 0"

text \<open>
  A 512-byte leaf page with cell count \<open>FFFF\<close> whose 252 pointer slots all hold offset 9.
  The cell at offset 9 reads: payload size 9, rowid 0, and a nine-byte record of eight
  columns (null and the integer 1, four times). Two schemas of eight columns and a sink
  that refuses every insert go with it.
\<close>

definition fanout_page :: "byte list" where
  "fanout_page = [0x0D, 0, 0, 0xFF, 0xFF, 0, 0, 0] @ concat (replicate 252 [0x00, 0x09])"

definition eight_columns :: "string \<Rightarrow> TableInfo" where
  "eight_columns name =
     \<lparr>Name = name, Columns = replicate 8 \<lparr>ColName = ''c'', Type = ''TEXT'', Pk = 0\<rparr>\<rparr>"

definition fanout_tables :: "TableInfo list" where
  "fanout_tables = [eight_columns ''a'', eight_columns ''b'']"

definition refuse :: "unit exec_fn" where
  "refuse db query args = (False, db)"

definition fanout_calls :: "(string \<times> val list \<times> bool) list" where
  "fanout_calls =
     [(''INSERT OR IGNORE INTO a VALUES (?, ?, ?, ?, ?, ?, ?, ?)'',
       [VNull, VInt 1, VNull, VInt 1, VNull, VInt 1, VNull, VInt 1], False),
      (''INSERT OR IGNORE INTO b VALUES (?, ?, ?, ?, ?, ?, ?, ?)'',
       [VNull, VInt 1, VNull, VInt 1, VNull, VInt 1, VNull, VInt 1], False)]"


text \<open>
  Where the declared types of an example are written in ASCII, the Unicode path of
  \<open>strings.ToUpper\<close> is not taken, and the example runs with the identity in its place.
\<close>

definition identity_upper :: upper_fn where
  "identity_upper s = s"


definition accept :: "(string \<times> val list) list exec_fn" where
  "accept db query args = (True, db @ [(query, args)])"

text \<open>
  The type name \<open>integer\<close> written with the dotless small i (U+0131, the bytes \<open>C4 B1\<close>
  in UTF-8), and a table whose primary key is declared with it.
\<close>

definition dotless_integer :: string where
  "dotless_integer = CHR 0xC4 # CHR 0xB1 # ''nteger''"

definition dotless_table :: TableInfo where
  "dotless_table =
     \<lparr>Name = ''t'', Columns = [\<lparr>ColName = ''id'', Type = dotless_integer, Pk = 1\<rparr>]\<rparr>"



section \<open>Facts about the varint decoder\<close>

lemma high_bit_iff: "(b :: byte) < 0x80 \<longleftrightarrow> \<not> bit b 7"
proof -
  have "\<not> bit b 7 \<longleftrightarrow> drop_bit 7 b = 0"
    using drop_bit_eq_zero_iff_not_bit_last [of b] by simp
  also have "\<dots> \<longleftrightarrow> unat (drop_bit 7 b) = 0"
    by (simp add: unat_eq_0)
  also have "\<dots> \<longleftrightarrow> unat b < 128"
    by (simp add: unat_drop_bit_eq drop_bit_eq_div unat_div div_eq_0_iff)
  also have "\<dots> \<longleftrightarrow> b < 0x80"
    by (simp add: word_less_nat_alt)
  finally show ?thesis by simp
qed

lemma high_bit_set_iff: "(0x80 :: byte) \<le> b \<longleftrightarrow> bit b 7"
  using high_bit_iff [of b] linorder_not_less [of b "0x80"] by blast

lemma readVarint_loop_width_zero:
  "snd (readVarint_loop buf i v) = 0 \<longleftrightarrow>
     (length buf < 9 \<and> (\<forall>j. i \<le> j \<and> j < length buf \<longrightarrow> 0x80 \<le> buf ! j))"
proof (induction buf i v rule: readVarint_loop.induct)
  case (1 buf i v)
  show ?case
  proof (cases "i < 9 \<and> i < length buf \<and> \<not> buf ! i < 0x80")
    case True
    then have "snd (readVarint_loop buf i v) =
        snd (readVarint_loop buf (i + 1) (push_bit 7 v OR ucast (buf ! i AND 0x7f)))"
      by (subst readVarint_loop.simps) (simp add: Let_def)
    also have "\<dots> = 0 \<longleftrightarrow>
        (length buf < 9 \<and> (\<forall>j. i + 1 \<le> j \<and> j < length buf \<longrightarrow> 0x80 \<le> buf ! j))"
      using True by (intro "1.IH") (auto simp: not_less)
    also have "(\<forall>j. i + 1 \<le> j \<and> j < length buf \<longrightarrow> 0x80 \<le> buf ! j) \<longleftrightarrow>
        (\<forall>j. i \<le> j \<and> j < length buf \<longrightarrow> 0x80 \<le> buf ! j)"
    proof
      assume a: "\<forall>j. i + 1 \<le> j \<and> j < length buf \<longrightarrow> 0x80 \<le> buf ! j"
      show "\<forall>j. i \<le> j \<and> j < length buf \<longrightarrow> 0x80 \<le> buf ! j"
      proof (intro allI impI)
        fix j assume j: "i \<le> j \<and> j < length buf"
        show "0x80 \<le> buf ! j"
        proof (cases "j = i")
          case True
          with \<open>i < 9 \<and> i < length buf \<and> \<not> buf ! i < 0x80\<close> show ?thesis
            by (simp add: not_less)
        next
          case False
          with j have "i + 1 \<le> j" by simp
          with a j show ?thesis by blast
        qed
      qed
    next
      assume "\<forall>j. i \<le> j \<and> j < length buf \<longrightarrow> 0x80 \<le> buf ! j"
      then show "\<forall>j. i + 1 \<le> j \<and> j < length buf \<longrightarrow> 0x80 \<le> buf ! j"
        by simp
    qed
    finally show ?thesis .
  next
    case False
    then show ?thesis
      by (subst readVarint_loop.simps) (auto simp: Let_def not_less not_le)
  qed
qed

lemma readVarint_loop_width_le:
  "snd (readVarint_loop buf i v) \<le> length buf \<and> snd (readVarint_loop buf i v) \<le> max 9 i"
proof (induction buf i v rule: readVarint_loop.induct)
  case (1 buf i v)
  show ?case
    using "1.IH" by (subst (1 2) readVarint_loop.simps) (auto simp: Let_def)
qed

lemma readVarint_loop_width_pos:
  "9 \<le> length buf \<Longrightarrow> i \<le> 9 \<Longrightarrow>
     i \<le> snd (readVarint_loop buf i v) \<and> 1 \<le> snd (readVarint_loop buf i v)"
proof (induction buf i v rule: readVarint_loop.induct)
  case (1 buf i v)
  show ?case
  proof (cases "i < 9 \<and> \<not> buf ! i < 0x80")
    case True
    let ?v' = "push_bit 7 v OR ucast (buf ! i AND 0x7f)"
    have eq: "readVarint_loop buf i v = readVarint_loop buf (i + 1) ?v'"
      using True "1.prems" by (subst readVarint_loop.simps) (simp add: Let_def)
    have "i + 1 \<le> snd (readVarint_loop buf (i + 1) ?v')
        \<and> 1 \<le> snd (readVarint_loop buf (i + 1) ?v')"
      using True "1.prems" by (intro "1.IH") auto
    then show ?thesis unfolding eq by simp
  next
    case False
    then show ?thesis using "1.prems"
      by (subst (1 2) readVarint_loop.simps) (auto simp: Let_def)
  qed
qed

lemma readVarint_loop_nine:
  "9 \<le> length buf \<Longrightarrow> i \<le> 8 \<Longrightarrow> \<forall>j. i \<le> j \<and> j < 8 \<longrightarrow> 0x80 \<le> buf ! j \<Longrightarrow>
     snd (readVarint_loop buf i v) = 9"
proof (induction buf i v rule: readVarint_loop.induct)
  case (1 buf i v)
  show ?case
  proof (cases "i = 8")
    case True
    then show ?thesis using "1.prems"
      by (subst readVarint_loop.simps, subst readVarint_loop.simps) (simp add: Let_def)
  next
    case False
    then have "buf ! i \<ge> 0x80" "i < 8" using "1.prems" by auto
    then show ?thesis using "1.IH" "1.prems"
      by (subst readVarint_loop.simps) (auto simp: Let_def not_less)
  qed
qed

text \<open>
  Every round shifts seven bits in, the ninth included, so at most 63 bits are ever
  set: the decoded value is below \<open>2 ^ 63\<close> and non-negative when read as Go's \<open>int\<close>.
\<close>

lemma readVarint_step_bits:
  assumes "\<forall>n. 7 * i \<le> n \<longrightarrow> \<not> bit (v :: 64 word) n"
  shows "\<forall>n. 7 * (i + 1) \<le> n \<longrightarrow> \<not> bit (push_bit 7 v OR ucast ((b :: byte) AND 0x7f)) n"
proof -
  have m: "(0x7f :: byte) = mask 7" by (simp add: mask_eq_exp_minus_1)
  from assms show ?thesis unfolding m by (auto simp: bit_simps)
qed

lemma readVarint_loop_top_bit:
  "i \<le> 9 \<Longrightarrow> \<forall>n. 7 * i \<le> n \<longrightarrow> \<not> bit v n \<Longrightarrow>
     \<not> bit (fst (readVarint_loop buf i v)) 63"
proof (induction buf i v rule: readVarint_loop.induct)
  case (1 buf i v)
  show ?case
  proof (cases "i < 9 \<and> i < length buf")
    case True
    let ?v' = "push_bit 7 v OR ucast (buf ! i AND 0x7f)"
    have v': "\<forall>n. 7 * (i + 1) \<le> n \<longrightarrow> \<not> bit ?v' n"
      using "1.prems"(2) by (rule readVarint_step_bits)
    show ?thesis
    proof (cases "buf ! i < 0x80")
      case True
      with \<open>i < 9 \<and> i < length buf\<close> have "fst (readVarint_loop buf i v) = ?v'"
        by (subst readVarint_loop.simps) (simp add: Let_def)
      moreover have "7 * (i + 1) \<le> 63" using \<open>i < 9 \<and> i < length buf\<close> by simp
      ultimately show ?thesis using v' by metis
    next
      case False
      with True have eq: "readVarint_loop buf i v = readVarint_loop buf (i + 1) ?v'"
        by (subst readVarint_loop.simps) (simp add: Let_def)
      have "\<not> bit (fst (readVarint_loop buf (i + 1) ?v')) 63"
        using True False v' by (intro "1.IH") auto
      then show ?thesis unfolding eq .
    qed
  next
    case False
    then show ?thesis using "1.prems"
      by (subst readVarint_loop.simps) (auto simp: Let_def)
  qed
qed

lemma sint_eq_uint_63:
  assumes "\<not> bit (w :: 64 word) 63"
  shows "sint w = uint w"
proof -
  have "take_bit 63 (uint w) = uint w"
  proof (rule bit_eqI)
    fix n
    have "bit w n \<Longrightarrow> n < 63"
      using assms bit_imp_le_length [of w n] by (cases "n = 63") auto
    then show "bit (take_bit 63 (uint w)) n \<longleftrightarrow> bit (uint w) n"
      by (auto simp: bit_simps)
  qed
  moreover have "sint w = signed_take_bit 63 (uint w)"
    by (simp add: sint_uint)
  moreover have "\<not> bit (uint w) 63"
    using assms by (simp add: bit_simps)
  ultimately show ?thesis
    by (simp add: signed_take_bit_eq_if_positive)
qed

lemma readVarint_sint_uint: "sint (fst (readVarint buf)) = uint (fst (readVarint buf))"
proof -
  have "\<not> bit (fst (readVarint buf)) 63"
    unfolding readVarint_def by (rule readVarint_loop_top_bit) auto
  then show ?thesis by (rule sint_eq_uint_63)
qed

lemma readVarint_width_le: "snd (readVarint buf) \<le> length buf"
  unfolding readVarint_def using readVarint_loop_width_le [of buf 0 0] by simp

text \<open>
  Claim C1. On eight continuation bytes followed by \<open>FF\<close> the decoder returns width 9,
  but the ninth byte contributes only its low seven bits: the value is \<open>0x7F\<close>, not the
  \<open>0xFF\<close> of a ninth byte taken whole.
\<close>

theorem readVarint_ninth_byte_seven_bits:
  "readVarint [0x80, 0x80, 0x80, 0x80, 0x80, 0x80, 0x80, 0x80, 0xFF] = (0x7F, 9)
   \<and> (0x7F :: 64 word) \<noteq> 0xFF"
  by (simp add: readVarint_def readVarint_loop.simps)

text \<open>
  Claim C8. The width is 0 exactly when the buffer is empty or all of its fewer than
  nine bytes have the high bit set; a buffer of nine bytes or more always decodes with a
  width between 1 and 9; and after eight continuation bytes the width is 9 whatever the
  ninth byte is.
\<close>

theorem readVarint_width:
  "(snd (readVarint buf) = 0 \<longleftrightarrow>
      buf = [] \<or> ((\<forall>b \<in> set buf. bit b 7) \<and> length buf < 9))
   \<and> (9 \<le> length buf \<longrightarrow> 1 \<le> snd (readVarint buf) \<and> snd (readVarint buf) \<le> 9)
   \<and> (9 \<le> length buf \<and> (\<forall>i < 8. bit (buf ! i) 7) \<longrightarrow> snd (readVarint buf) = 9)"
proof (intro conjI impI)
  have "(\<forall>j. 0 \<le> j \<and> j < length buf \<longrightarrow> 0x80 \<le> buf ! j) \<longleftrightarrow> (\<forall>b \<in> set buf. bit b 7)"
    by (simp add: all_set_conv_all_nth high_bit_set_iff)
  then show "snd (readVarint buf) = 0 \<longleftrightarrow>
      buf = [] \<or> ((\<forall>b \<in> set buf. bit b 7) \<and> length buf < 9)"
    unfolding readVarint_def readVarint_loop_width_zero by auto
next
  assume "9 \<le> length buf"
  then show "1 \<le> snd (readVarint buf)"
    unfolding readVarint_def using readVarint_loop_width_pos [of buf 0 0] by simp
next
  show "snd (readVarint buf) \<le> 9"
    unfolding readVarint_def using readVarint_loop_width_le [of buf 0 0] by simp
next
  assume a: "9 \<le> length buf \<and> (\<forall>i < 8. bit (buf ! i) 7)"
  then have "\<forall>j. 0 \<le> j \<and> j < 8 \<longrightarrow> 0x80 \<le> buf ! j"
    by (simp add: high_bit_set_iff)
  with a show "snd (readVarint buf) = 9"
    unfolding readVarint_def by (intro readVarint_loop_nine) auto
qed

theorem readVarint_width_witness:
  "snd (readVarint [0x81, 0x80]) = 0
   \<and> 1 \<le> snd (readVarint [0x81, 0x80, 0x01, 0, 0, 0, 0, 0, 0])
   \<and> snd (readVarint [0x80, 0x80, 0x80, 0x80, 0x80, 0x80, 0x80, 0x80, 0x05]) = 9"
proof -
  have b: "bit (0x80 :: byte) 7" "bit (0x81 :: byte) 7"
    by (simp_all add: high_bit_iff [symmetric])
  have "(\<forall>b \<in> set [0x81, 0x80 :: byte]. bit b 7) \<and> length [0x81, 0x80 :: byte] < 9"
    using b by simp
  then have w1: "snd (readVarint [0x81, 0x80]) = 0"
    using readVarint_width [of "[0x81, 0x80]"] by blast
  have "9 \<le> length [0x81, 0x80, 0x01, 0, 0, 0, 0, 0, 0 :: byte]"
    by simp
  then have w2: "1 \<le> snd (readVarint [0x81, 0x80, 0x01, 0, 0, 0, 0, 0, 0])"
    using readVarint_width [of "[0x81, 0x80, 0x01, 0, 0, 0, 0, 0, 0]"] by blast
  let ?nine = "[0x80, 0x80, 0x80, 0x80, 0x80, 0x80, 0x80, 0x80, 0x05 :: byte]"
  have "\<forall>i < 8. ?nine ! i = 0x80"
    by (simp add: less_Suc_eq numeral_eq_Suc)
  then have "9 \<le> length ?nine \<and> (\<forall>i < 8. bit (?nine ! i) 7)"
    using b by simp
  then have w3: "snd (readVarint ?nine) = 9"
    using readVarint_width [of ?nine] by blast
  from w1 w2 w3 show ?thesis by blast
qed

section \<open>The run-time checks of the decoders\<close>

text \<open>
  The checks written out in \<open>readVarint_checked\<close> and \<open>parseSerialType_checked\<close> never
  fire: each returns what \<open>readVarint\<close> and \<open>parseSerialType\<close> compute. The loop over
  the record header returns as well.
\<close>

lemma readVarint_checked_loop_eq:
  "readVarint_checked_loop buf i v = Returns (readVarint_loop buf i v)"
proof (induction buf i v rule: readVarint_loop.induct)
  case (1 buf i v)
  show ?case
    using "1.IH"
    by (subst readVarint_checked_loop.simps, subst readVarint_loop.simps)
       (simp add: index_def Let_def)
qed

lemma readVarint_checked_eq [simp]: "readVarint_checked buf = Returns (readVarint buf)"
  by (simp add: readVarint_checked_def readVarint_def readVarint_checked_loop_eq)

lemma BigEndian_Uint16_eq:
  "2 \<le> length b \<Longrightarrow> BigEndian_Uint16 b = Returns (be_uint16 b)"
  by (simp add: BigEndian_Uint16_def and_then_def index_def)

lemma BigEndian_Uint32_eq:
  "4 \<le> length b \<Longrightarrow> BigEndian_Uint32 b = Returns (be_uint32 b)"
  by (simp add: BigEndian_Uint32_def and_then_def index_def)

lemma BigEndian_Uint64_eq:
  "8 \<le> length b \<Longrightarrow> BigEndian_Uint64 b = Returns (be_uint64 b)"
  by (simp add: BigEndian_Uint64_def and_then_def index_def)

lemma slice_from_ok:
  "lo \<le> length s \<Longrightarrow> slice_from s (int lo) = Returns (drop lo s)"
  by (simp add: slice_from_def slice_def)

lemma slice_to_ok:
  "n \<le> length s \<Longrightarrow> slice s 0 (int n) = Returns (take n s)"
  by (simp add: slice_def)

lemma and_then_simps [simp]:
  "and_then (Returns x) f = f x" "and_then (Panics p) f = Panics p"
  by (simp_all add: and_then_def)

lemma slice_to_word_ok:
  "\<not> length s < unat (w :: 64 word) \<Longrightarrow> slice s 0 (uint w) = Returns (take (unat w) s)"
proof -
  assume "\<not> length s < unat w"
  then have "unat w \<le> length s" by simp
  then have "slice s 0 (int (unat w)) = Returns (take (unat w) s)" by (rule slice_to_ok)
  then show ?thesis by simp
qed

lemma parseSerialType_checked_eq [simp]:
  "parseSerialType_checked t buf = Returns (parseSerialType t buf)"
proof -
  have two: "\<not> length buf < 6 \<Longrightarrow> slice_from buf 2 = Returns (drop 2 buf)"
    using slice_from_ok [of 2 buf] by simp
  have four: "\<not> length buf < 6 \<Longrightarrow> BigEndian_Uint32 (drop 2 buf) = Returns (be_uint32 (drop 2 buf))"
    by (simp add: BigEndian_Uint32_eq)
  have one: "\<not> length buf < 1 \<Longrightarrow> index buf 0 = Returns (buf ! 0)"
    by (simp add: index_def)
  have three: "\<not> length buf < 3 \<Longrightarrow> index buf 0 = Returns (buf ! 0)"
    "\<not> length buf < 3 \<Longrightarrow> index buf (Suc 0) = Returns (buf ! Suc 0)"
    "\<not> length buf < 3 \<Longrightarrow> index buf 2 = Returns (buf ! 2)"
    by (auto simp: index_def)
  have six: "\<not> length buf < 6 \<Longrightarrow> index buf 0 = Returns (buf ! 0)"
    "\<not> length buf < 6 \<Longrightarrow> index buf (Suc 0) = Returns (buf ! Suc 0)"
    by (auto simp: index_def)
  show ?thesis
    unfolding parseSerialType_checked_def parseSerialType_def Let_def
    by (simp add: one three six BigEndian_Uint16_eq BigEndian_Uint32_eq BigEndian_Uint64_eq
        two four slice_to_word_ok)
qed

lemma parseRecord_types_returns:
  "\<exists>ts. parseRecord_types header idx acc = Returns ts"
proof (induction header idx acc rule: parseRecord_types.induct)
  case (1 header idx types)
  show ?case
  proof (cases "idx < length header")
    case False
    then show ?thesis by (subst parseRecord_types.simps) simp
  next
    case True
    then have sl: "slice_from header (int idx) = Returns (drop idx header)"
      by (simp add: slice_from_ok)
    obtain t n where rv: "readVarint (drop idx header) = (t, n)"
      by (cases "readVarint (drop idx header)")
    show ?thesis
    proof (cases "n = 0")
      case True
      then show ?thesis
        using \<open>idx < length header\<close> sl rv by (subst parseRecord_types.simps) simp
    next
      case False
      have "\<exists>ts. parseRecord_types header (idx + n) (types @ [t]) = Returns ts"
        using "1.IH" [OF \<open>idx < length header\<close> sl _ _ False, of "(t, n)" t]
        by (simp add: rv)
      then show ?thesis
        using \<open>idx < length header\<close> sl rv False by (subst parseRecord_types.simps) simp
    qed
  qed
qed

section \<open>Properties of the record decoder\<close>

text \<open>
  Claim C3. On the one-byte payload \<open>00\<close> the header length decodes to 0 with width 1;
  the bound check passes (0 is not above the payload length), and the slice
  \<open>payload[1:0]\<close> panics instead of yielding the decode error.
\<close>

theorem parseRecord_zero_header_panics:
  "parseRecord [0x00] = Panics SliceLowAboveHigh"
  by (simp add: parseRecord_def readVarint_def readVarint_loop.simps slice_def)

section \<open>Properties of the row dispatch\<close>





text \<open>Case-insensitive equality and the statement text, on examples.\<close>

lemma ci_equal_examples:
  "ci_equal ''INTEGER'' ''INTEGER''" "ci_equal ''integer'' ''INTEGER''"
  "ci_equal ''InTeGeR'' ''INTEGER''" "\<not> ci_equal ''INT'' ''INTEGER''"
  "\<not> ci_equal ''INTEGERS'' ''INTEGER''" "\<not> ci_equal ''1NTEGER'' ''INTEGER''"
  "\<not> ci_equal ''TEXT'' ''INTEGER''" "\<not> ci_equal dotless_integer ''INTEGER''"
  by (simp_all add: ci_equal_def same_letter_def capital_def dotless_integer_def)


lemma placeholders_examples:
  "placeholders 0 = []" "placeholders 1 = ''?''" "placeholders 3 = ''?, ?, ?''"
  by (simp_all add: numeral_3_eq_3)




text \<open>
  Where the Unicode path upper-cases the dotless small i to \<open>I\<close>, as that of the Go
  library does, a primary key declared \<open>integer\<close> with the dotless i is a rowid alias
  for \<open>tryRecoverRow\<close>, and the rowid takes the place of the null.
\<close>

lemma tryRecoverRow_dotless_i:
  assumes "unicodeUpper dotless_integer = ''INTEGER''"
  shows "tryRecoverRow unicodeUpper accept 7 [VNull] [dotless_table] []
           = [(''INSERT OR IGNORE INTO t VALUES (?)'', [VInt 7])]"
  using assms
  by (simp add: dotless_table_def accept_def insert_query_def fill_alias_def ToUpper_def
      isASCII_def dotless_integer_def)




section \<open>Facts about the record decoder and the cell loop\<close>

lemma parseSerialType_width:
  "parseSerialType t buf = Inr (v, n) \<Longrightarrow> n \<le> length buf"
  by (auto simp: parseSerialType_def Let_def Suc_le_eq split: if_splits)

lemma parseRecord_values_returns:
  "bodyIdx \<le> length body \<Longrightarrow> \<exists>r. parseRecord_values ts body bodyIdx vals = Returns r"
proof (induction ts arbitrary: bodyIdx vals)
  case Nil
  show ?case by simp
next
  case (Cons t ts)
  show ?case
  proof (cases "parseSerialType t (drop bodyIdx body)")
    case (Inl e)
    then show ?thesis using Cons.prems by (simp add: slice_from_ok)
  next
    case (Inr r)
    obtain v n where r: "r = (v, n)" by (cases r)
    with Inr have "n \<le> length (drop bodyIdx body)" by (auto dest: parseSerialType_width)
    then have "bodyIdx + n \<le> length body" using Cons.prems by simp
    from Cons.IH [OF this] show ?thesis
      using Cons.prems Inr r by (simp add: slice_from_ok)
  qed
qed

lemma parseRecord_panics_iff:
  "parseRecord payload = Panics p \<longleftrightarrow>
     p = SliceLowAboveHigh \<and> snd (readVarint payload) \<noteq> 0
       \<and> uint (fst (readVarint payload)) < int (snd (readVarint payload))"
proof -
  obtain headerLen n where rv: "readVarint payload = (headerLen, n)"
    by (cases "readVarint payload")
  have su: "sint headerLen = uint headerLen"
    using readVarint_sint_uint [of payload] rv by simp
  have nle: "n \<le> length payload"
    using readVarint_width_le [of payload] rv by simp
  show ?thesis
  proof (cases "n = 0 \<or> int (length payload) < sint headerLen")
    case True
    then show ?thesis using rv su nle by (auto simp: parseRecord_def)
  next
    case False
    then have hl: "uint headerLen \<le> int (length payload)" using su by simp
    then obtain body where body: "slice_from payload (uint headerLen) = Returns body"
      by (simp add: slice_from_def slice_def)
    show ?thesis
    proof (cases "uint headerLen < int n")
      case True
      then show ?thesis using False rv hl nle by (auto simp: parseRecord_def slice_def)
    next
      case False
      then obtain header where header: "slice payload (int n) (uint headerLen) = Returns header"
        using hl nle by (simp add: slice_def)
      obtain types where types: "parseRecord_types header 0 [] = Returns types"
        using parseRecord_types_returns [of header 0 "[]"] by blast
      obtain r where "parseRecord_values types body 0 [] = Returns r"
        using parseRecord_values_returns [of 0 body] by auto
      then have "parseRecord payload = Returns r"
        using \<open>\<not> (n = 0 \<or> int (length payload) < sint headerLen)\<close> rv body header types
        by (simp add: parseRecord_def)
      then show ?thesis using False rv by simp
    qed
  qed
qed

lemma placed_simps [simp]:
  "placed [] = 0" "placed (c # cs) = (if snd (snd c) then 1 else 0) + placed cs"
  "placed (xs @ ys) = placed xs + placed ys"
  by (auto simp: placed_def split: prod.splits)

lemma tryRecoverRow_traced:
  "\<exists>db' new. tryRecoverRow unicodeUpper (traced Exec) rowID values tables (db, log) = (db', log @ new)
      \<and> length new \<le> length tables \<and> placed new \<le> 1"
proof (induction tables arbitrary: db log)
  case Nil
  show ?case by simp
next
  case (Cons table tables)
  show ?case
  proof (cases "length (Columns table) = length values")
    case False
    with Cons.IH [of db log] show ?thesis by auto
  next
    case True
    define iv where "iv = foldl (fill_alias unicodeUpper rowID (Columns table)) values
                            [0 ..< length (Columns table)]"
    define q where "q = insert_query table (length values)"
    obtain ok d where ex: "Exec db q iv = (ok, d)" by (cases "Exec db q iv")
    then have tr: "traced Exec (db, log) q iv = (ok, (d, log @ [(q, iv, ok)]))"
      by (simp add: traced_def)
    show ?thesis
    proof (cases ok)
      case True
      with tr \<open>length (Columns table) = length values\<close>
      have "tryRecoverRow unicodeUpper (traced Exec) rowID values (table # tables) (db, log)
              = (d, log @ [(q, iv, ok)])"
        by (simp add: iv_def q_def Let_def)
      then show ?thesis by force
    next
      case False
      with tr \<open>length (Columns table) = length values\<close>
      have eq: "tryRecoverRow unicodeUpper (traced Exec) rowID values (table # tables) (db, log)
              = tryRecoverRow unicodeUpper (traced Exec) rowID values tables (d, log @ [(q, iv, ok)])"
        by (simp add: iv_def q_def Let_def)
      obtain db' new where
        "tryRecoverRow unicodeUpper (traced Exec) rowID values tables (d, log @ [(q, iv, ok)])
           = (db', (log @ [(q, iv, ok)]) @ new)"
        "length new \<le> length tables" "placed new \<le> 1"
        using Cons.IH [of d "log @ [(q, iv, ok)]"] by blast
      then have "tryRecoverRow unicodeUpper (traced Exec) rowID values (table # tables) (db, log)
              = (db', log @ ((q, iv, ok) # new))
            \<and> length ((q, iv, ok) # new) \<le> length (table # tables)
            \<and> placed ((q, iv, ok) # new) \<le> 1"
        using eq False by simp
      then show ?thesis by blast
    qed
  qed
qed

lemma dispatch_all_traced:
  "\<exists>db' new. dispatch_all unicodeUpper (traced Exec) tables rows (db, log) = (db', log @ new)
      \<and> length new \<le> length rows * length tables \<and> placed new \<le> length rows"
proof (induction rows arbitrary: db log)
  case Nil
  show ?case by (simp add: dispatch_all_def)
next
  case (Cons row rows)
  obtain rowID vs where row: "row = (rowID, vs)" by (cases row)
  obtain d new1 where 1:
    "tryRecoverRow unicodeUpper (traced Exec) rowID vs tables (db, log) = (d, log @ new1)"
    "length new1 \<le> length tables" "placed new1 \<le> 1"
    using tryRecoverRow_traced [of unicodeUpper Exec rowID vs tables db log] by blast
  obtain db' new2 where 2:
    "dispatch_all unicodeUpper (traced Exec) tables rows (d, log @ new1) = (db', (log @ new1) @ new2)"
    "length new2 \<le> length rows * length tables" "placed new2 \<le> length rows"
    using Cons.IH [of d "log @ new1"] by blast
  have "dispatch_all unicodeUpper (traced Exec) tables (row # rows) (db, log) = (db', log @ (new1 @ new2))"
    using 1(1) 2(1) row by (simp add: dispatch_all_def)
  moreover have "length (new1 @ new2) \<le> length (row # rows) * length tables"
    using 1(2) 2(2) by simp
  moreover have "placed (new1 @ new2) \<le> length (row # rows)"
    using 1(3) 2(3) by simp
  ultimately show ?case by blast
qed

lemma processPage_cell_cases:
  obtains
    (brk) "length pd < headerOffset + 8 + i * 2 + 2"
          "processPage_cell unicodeUpper Exec pd headerOffset tables i s = Break s"
  | (skip) "headerOffset + 8 + i * 2 + 2 \<le> length pd"
          "processPage_cell unicodeUpper Exec pd headerOffset tables i s = Continue s"
  | (abort) "headerOffset + 8 + i * 2 + 2 \<le> length pd"
          "processPage_cell unicodeUpper Exec pd headerOffset tables i s = Abort SliceLowAboveHigh s"
  | (row) rowID vs where "headerOffset + 8 + i * 2 + 2 \<le> length pd"
          "processPage_cell unicodeUpper Exec pd headerOffset tables i s
             = Continue (tryRecoverRow unicodeUpper Exec rowID vs tables s)"
proof -
  define ptrOffset where "ptrOffset = headerOffset + 8 + i * 2"
  show thesis
  proof (cases "length pd < ptrOffset + 2")
    case True
    then show thesis
      using brk by (simp add: processPage_cell_def ptrOffset_def Let_def)
  next
    case inpage: False
    then obtain ptr where ptr: "slice pd (int ptrOffset) (int ptrOffset + 2) = Returns ptr"
      by (simp add: slice_def)
    have "length ptr = 2" using ptr inpage by (auto simp: slice_def split: if_splits)
    then have be: "BigEndian_Uint16 ptr = Returns (be_uint16 ptr)"
      by (simp add: BigEndian_Uint16_eq)
    define cellOffset where "cellOffset = be_uint16 ptr"
    have unf1: "processPage_cell unicodeUpper Exec pd headerOffset tables i s =
       (if length pd \<le> unat cellOffset then Continue s
              else
                (case slice_from pd (uint cellOffset) of
                   Panics p \<Rightarrow> Abort p s
                 | Returns cell \<Rightarrow>
                     (case readVarint_checked cell of
                        Panics p \<Rightarrow> Abort p s
                      | Returns (payloadSize, n) \<Rightarrow>
                          if n = 0 then Continue s
                          else
                            (case slice_from cell (int n) of
                               Panics p \<Rightarrow> Abort p s
                             | Returns rest \<Rightarrow>
                                 (case readVarint_checked rest of
                                    Panics p \<Rightarrow> Abort p s
                                  | Returns (rowID, n2) \<Rightarrow>
                                      if n2 = 0 then Continue s
                                      else
                                        (let totalHeaderSize = n + n2 in
                                         if int (length cell) - int totalHeaderSize
                                              < sint payloadSize
                                         then Continue s
                                         else
                                           (case slice cell (int totalHeaderSize)
                                                   (int totalHeaderSize + sint payloadSize) of
                                              Panics p \<Rightarrow> Abort p s
                                            | Returns payload \<Rightarrow>
                                                (case parseRecord payload of
                                                   Panics p \<Rightarrow> Abort p s
                                                 | Returns (Inl err) \<Rightarrow> Continue s
                                                 | Returns (Inr values) \<Rightarrow>
                                                     Continue
                                                       (tryRecoverRow unicodeUpper Exec rowID values tables
                                                          s)))))))))"
      using inpage ptr be
      by (simp add: processPage_cell_def ptrOffset_def [symmetric] cellOffset_def Let_def)
    have le: "headerOffset + 8 + i * 2 + 2 \<le> length pd"
      using inpage by (simp add: ptrOffset_def)
    show thesis
    proof (cases "length pd \<le> unat cellOffset")
      case True
      then show thesis using skip le unf1 by simp
    next
      case False
      then have cell: "slice_from pd (uint cellOffset) = Returns (drop (unat cellOffset) pd)"
        using slice_from_ok [of "unat cellOffset" pd] by simp
      define cell where "cell = drop (unat cellOffset) pd"
      obtain payloadSize n where rv1: "readVarint cell = (payloadSize, n)"
        by (cases "readVarint cell")
      have n: "n \<le> length cell" using readVarint_width_le [of cell] rv1 by simp
      have ps: "sint payloadSize = uint payloadSize"
        using readVarint_sint_uint [of cell] rv1 by simp
      obtain rowID n2 where rv2: "readVarint (drop n cell) = (rowID, n2)"
        by (cases "readVarint (drop n cell)")
      show thesis
      proof (cases "n = 0 \<or> n2 = 0 \<or> int (length cell) - int (n + n2) < sint payloadSize")
        case True
        then have "processPage_cell unicodeUpper Exec pd headerOffset tables i s = Continue s"
          using False cell rv1 rv2 n
          by (auto simp: unf1 cell_def [symmetric] slice_from_ok Let_def)
        then show thesis using skip le by simp
      next
        case ok: False
        have nn: "0 \<le> uint payloadSize" by simp
        have c1: "\<not> (int (n + n2) + sint payloadSize < 0
                   \<or> int (length cell) < int (n + n2) + sint payloadSize)"
          using ok ps nn by linarith
        have c2: "\<not> (int (n + n2) < 0 \<or> int (length cell) < int (n + n2))"
          using ok ps nn by linarith
        have c3: "\<not> int (n + n2) + sint payloadSize < int (n + n2)"
          using ps nn by linarith
        define payload where
          "payload = take (nat (int (n + n2) + sint payloadSize - int (n + n2)))
                       (drop (nat (int (n + n2))) cell)"
        have payload:
          "slice cell (int (n + n2)) (int (n + n2) + sint payloadSize) = Returns payload"
          unfolding slice_def payload_def by (simp only: c1 c2 c3 if_False)
        have unf2: "processPage_cell unicodeUpper Exec pd headerOffset tables i s =
            (case parseRecord payload of
               Panics p \<Rightarrow> Abort p s
             | Returns (Inl err) \<Rightarrow> Continue s
             | Returns (Inr values) \<Rightarrow> Continue (tryRecoverRow unicodeUpper Exec rowID values tables s))"
          using False cell rv1 rv2 n ok payload
          by (simp add: unf1 cell_def [symmetric] slice_from_ok Let_def)
        show thesis
        proof (cases "parseRecord payload")
          case (Panics p)
          then have "p = SliceLowAboveHigh" by (simp add: parseRecord_panics_iff)
          with Panics show thesis using abort le unf2 by simp
        next
          case (Returns res)
          then show thesis using skip row le unf2 by (cases res) auto
        qed
      qed
    qed
  qed
qed

lemma processPage_loop_rows:
  "\<exists>rows. length rows \<le> (length pd - (headerOffset + 8)) div 2 - i
      \<and> snd (processPage_loop unicodeUpper Exec pd headerOffset tables numCells i s)
            = dispatch_all unicodeUpper Exec tables rows s
      \<and> (\<forall>p. fst (processPage_loop unicodeUpper Exec pd headerOffset tables numCells i s)
                 = Panics p \<longrightarrow> p = SliceLowAboveHigh)"
proof (induction unicodeUpper Exec pd headerOffset tables numCells i s
         rule: processPage_loop.induct)
  case (1 unicodeUpper Exec pd headerOffset tables numCells i s)
  let ?cap = "(length pd - (headerOffset + 8)) div 2"
  have none: "\<exists>rows. length rows \<le> ?cap - i \<and> s = dispatch_all unicodeUpper Exec tables rows s"
    by (rule exI [of _ "[]"]) (simp add: dispatch_all_def)
  show ?case
  proof (cases "i < numCells")
    case False
    then have "processPage_loop unicodeUpper Exec pd headerOffset tables numCells i s = (Returns (), s)"
      by (subst processPage_loop.simps) simp
    then show ?thesis using none by simp
  next
    case True
    show ?thesis
    proof (cases rule: processPage_cell_cases [of pd headerOffset i unicodeUpper Exec tables s])
      case brk
      then have "processPage_loop unicodeUpper Exec pd headerOffset tables numCells i s = (Returns (), s)"
        using True by (subst processPage_loop.simps) simp
      then show ?thesis using none by simp
    next
      case abort
      then have "processPage_loop unicodeUpper Exec pd headerOffset tables numCells i s
                   = (Panics SliceLowAboveHigh, s)"
        using True by (subst processPage_loop.simps) simp
      then show ?thesis using none by simp
    next
      case skip
      then have eq: "processPage_loop unicodeUpper Exec pd headerOffset tables numCells i s
                   = processPage_loop unicodeUpper Exec pd headerOffset tables numCells (i + 1) s"
        using True by (subst processPage_loop.simps) simp
      obtain rows where "length rows \<le> ?cap - (i + 1)"
        "snd (processPage_loop unicodeUpper Exec pd headerOffset tables numCells (i + 1) s)
            = dispatch_all unicodeUpper Exec tables rows s"
        "\<forall>p. fst (processPage_loop unicodeUpper Exec pd headerOffset tables numCells (i + 1) s)
               = Panics p \<longrightarrow> p = SliceLowAboveHigh"
        using "1.IH" [OF True skip(2)] by blast
      then show ?thesis unfolding eq
        by (intro exI [of _ rows]) simp
    next
      case (row rowID vs)
      let ?s' = "tryRecoverRow unicodeUpper Exec rowID vs tables s"
      have eq: "processPage_loop unicodeUpper Exec pd headerOffset tables numCells i s
                   = processPage_loop unicodeUpper Exec pd headerOffset tables numCells (i + 1) ?s'"
        using True row by (subst processPage_loop.simps) simp
      have cap: "i + 1 \<le> ?cap" using row(1) by linarith
      obtain rows where rows: "length rows \<le> ?cap - (i + 1)"
        "snd (processPage_loop unicodeUpper Exec pd headerOffset tables numCells (i + 1) ?s')
            = dispatch_all unicodeUpper Exec tables rows ?s'"
        "\<forall>p. fst (processPage_loop unicodeUpper Exec pd headerOffset tables numCells (i + 1) ?s')
               = Panics p \<longrightarrow> p = SliceLowAboveHigh"
        using "1.IH" [OF True row(2)] by blast
      have "length ((rowID, vs) # rows) \<le> ?cap - i" using rows(1) cap by simp
      moreover have "dispatch_all unicodeUpper Exec tables rows ?s'
                       = dispatch_all unicodeUpper Exec tables ((rowID, vs) # rows) s"
        by (simp add: dispatch_all_def)
      ultimately show ?thesis unfolding eq using rows(2,3)
        by (intro exI [of _ "(rowID, vs) # rows"]) simp
    qed
  qed
qed


section \<open>Properties of the page scanner\<close>

text \<open>
  Claim C2. A 512-byte leaf page whose single cell carries the record \<open>00\<close> makes
  \<open>processPage\<close> panic in the record decoder: the malformed cell is not skipped, and the
  panic leaves \<open>processPage\<close> without a return.
\<close>

theorem processPage_zero_header_panics:
  "length zero_header_page = 512
   \<and> processPage unicodeUpper Exec zero_header_page 1 tables db = (Panics SliceLowAboveHigh, db)"
  by (simp add: processPage_def zero_header_page_def index_def slice_def BigEndian_Uint16_def
      be_uint16_def processPage_loop.simps processPage_cell_def slice_from_def readVarint_def
      readVarint_loop.simps parseRecord_def)

text \<open>
  Claim C9. A page whose byte at the header offset (100 for page index 0, otherwise 0) is
  not \<open>0D\<close> causes no insert call and no error: the run returns \<open>nil\<close> with the database
  and the log of calls unchanged. So does a page of zero bytes of any length.
\<close>

theorem processPage_skips_non_leaf:
  "((if pageIndex = 0 then 100 else 0) < length pageData
      \<and> pageData ! (if pageIndex = 0 then 100 else 0) \<noteq> 0x0D
     \<longrightarrow> processPage unicodeUpper (traced Exec) pageData pageIndex tables (db, log)
           = (Returns None, (db, log)))
   \<and> processPage unicodeUpper (traced Exec) (replicate n 0) pageIndex tables (db, log)
           = (Returns None, (db, log))"
  by (simp add: processPage_def index_def Let_def)

theorem processPage_skips_non_leaf_witness:
  "(0 :: nat) < length [0x05, 0x00 :: byte] \<and> [0x05, 0x00 :: byte] ! 0 \<noteq> 0x0D
   \<and> processPage identity_upper (traced (\<lambda>db query args. (True, db))) [0x05, 0x00] 1 []
        ((), [])
        = (Returns None, ((), []))"
  using processPage_skips_non_leaf
    [of 1 "[0x05, 0x00]" identity_upper "\<lambda>db query args. (True, db)" "[]" "()" "[]" 0]
  by simp

section \<open>The bound on the insert calls of a page\<close>

lemma processPage_cell_breaks:
  "length pd < headerOffset + 8 + i * 2 + 2
     \<Longrightarrow> processPage_cell unicodeUpper Exec pd headerOffset tables i s = Break s"
  by (simp add: processPage_cell_def)

lemma processPage_cell_skips:
  assumes "headerOffset + 8 + i * 2 + 2 \<le> length pd"
    and "length pd \<le> unat (be_uint16 (take 2 (drop (headerOffset + 8 + i * 2) pd)))"
  shows "processPage_cell unicodeUpper Exec pd headerOffset tables i s = Continue s"
proof -
  have "nat (int headerOffset + 8 + int i * 2) = headerOffset + 8 + i * 2" by linarith
  then have "slice pd (int (headerOffset + 8 + i * 2)) (int (headerOffset + 8 + i * 2) + 2)
               = Returns (take 2 (drop (headerOffset + 8 + i * 2) pd))"
    using assms(1) by (simp add: slice_def)
  moreover have "BigEndian_Uint16 (take 2 (drop (headerOffset + 8 + i * 2) pd))
                   = Returns (be_uint16 (take 2 (drop (headerOffset + 8 + i * 2) pd)))"
    using assms(1) by (simp add: BigEndian_Uint16_eq)
  ultimately show ?thesis
    using assms by (simp add: processPage_cell_def Let_def)
qed

lemma length_concat_pairs: "length (concat (replicate n [a, b])) = 2 * n"
  by (induction n) auto

lemma drop_concat_pairs:
  "drop (2 * i) (concat (replicate n [a, b])) = concat (replicate (n - i) [a, b])"
proof (induction i arbitrary: n)
  case 0
  show ?case by simp
next
  case (Suc i)
  show ?case
  proof (cases n)
    case 0
    then show ?thesis by simp
  next
    case (Suc m)
    then show ?thesis using Suc.IH [of m] by simp
  qed
qed

lemma fanout_length: "length fanout_page = 512"
  by (simp add: fanout_page_def length_concat_pairs)

lemma fanout_pointer:
  assumes "i < 252"
  shows "take 2 (drop (8 + i * 2) fanout_page) = [0x00, 0x09]"
proof -
  obtain m where m: "252 - i = Suc m" using assms by (cases "252 - i") auto
  have "drop (8 + i * 2) fanout_page = drop (2 * i) (drop 8 fanout_page)"
    by (simp add: add.commute mult.commute)
  also have "drop 8 fanout_page = concat (replicate 252 [0x00, 0x09 :: byte])"
    by (simp add: fanout_page_def)
  also have "drop (2 * i) (concat (replicate 252 [0x00, 0x09 :: byte]))
      = concat (replicate (252 - i) [0x00, 0x09])"
    by (rule drop_concat_pairs)
  finally show ?thesis by (simp add: m)
qed

lemma fanout_cell:
  "drop 9 fanout_page
     = [0x09, 0x00, 0x09, 0x00, 0x09, 0x00, 0x09, 0x00, 0x09, 0x00, 0x09]
         @ concat (replicate 246 [0x00, 0x09])"
proof -
  have n: "(252 :: nat) = Suc (Suc (Suc (Suc (Suc (Suc 246)))))" by simp
  have "replicate 252 [0x00, 0x09 :: byte]
          = [0, 9] # [0, 9] # [0, 9] # [0, 9] # [0, 9] # [0, 9] # replicate 246 [0, 9]"
    by (simp only: n replicate.simps)
  then show ?thesis by (simp add: fanout_page_def)
qed

lemma fanout_record:
  "parseRecord [0x09, 0x00, 0x09, 0x00, 0x09, 0x00, 0x09, 0x00, 0x09]
     = Returns (Inr [VNull, VInt 1, VNull, VInt 1, VNull, VInt 1, VNull, VInt 1])"
  by code_simp

lemma fanout_row:
  "tryRecoverRow unicodeUpper (traced refuse) 0 [VNull, VInt 1, VNull, VInt 1, VNull, VInt 1, VNull, VInt 1]
     fanout_tables ((), log) = ((), log @ fanout_calls)"
  by (simp add: fanout_tables_def eight_columns_def traced_def refuse_def fanout_calls_def
      insert_query_def fill_alias_def upt_conv_Cons)

lemma fanout_cell_run:
  assumes "i < 252"
  shows "processPage_cell unicodeUpper (traced refuse) fanout_page 0 fanout_tables i ((), log)
           = Continue ((), log @ fanout_calls)"
proof -
  define cell where "cell = drop 9 fanout_page"
  have cell_eq: "cell = [0x09, 0x00, 0x09, 0x00, 0x09, 0x00, 0x09, 0x00, 0x09, 0x00, 0x09]
                 @ concat (replicate 246 [0x00, 0x09])"
    unfolding cell_def by (rule fanout_cell)
  have ptr: "slice fanout_page (8 + int i * 2) (10 + int i * 2) = Returns [0x00, 0x09]"
  proof -
    have "nat (8 + int i * 2) = 8 + i * 2" by linarith
    then show ?thesis
      using assms fanout_pointer [OF assms] by (simp add: slice_def fanout_length)
  qed
  have off: "BigEndian_Uint16 [0x00, 0x09] = Returns 9"
    by (simp add: BigEndian_Uint16_def index_def be_uint16_def)
  have cell: "slice_from fanout_page 9 = Returns cell"
    using slice_from_ok [of 9 fanout_page] by (simp add: cell_def fanout_length)
  have len: "length cell = 503" by (simp add: cell_def fanout_length)
  have rv1: "readVarint cell = (9, 1)"
    by (simp add: cell_eq readVarint_def readVarint_loop.simps)
  have rest: "slice_from cell 1 = Returns (drop (Suc 0) cell)"
    using slice_from_ok [of 1 cell] by (simp add: len)
  have rv2: "readVarint (drop (Suc 0) cell) = (0, 1)"
    by (simp add: cell_eq readVarint_def readVarint_loop.simps)
  have payload: "slice cell 2 11
      = Returns [0x09, 0x00, 0x09, 0x00, 0x09, 0x00, 0x09, 0x00, 0x09]"
    by (simp add: slice_def len) (simp add: cell_eq)
  show ?thesis
    using assms
    by (simp add: processPage_cell_def Let_def fanout_length ptr off cell rv1 rest rv2
        len payload fanout_record fanout_row)
qed

lemma fanout_loop:
  assumes "i \<le> 252"
  shows "processPage_loop unicodeUpper (traced refuse) fanout_page 0 fanout_tables 65535 i ((), log)
           = (Returns (), ((), log @ concat (replicate (252 - i) fanout_calls)))"
  using assms
proof (induction i arbitrary: log rule: inc_induct)
  case base
  have "processPage_cell unicodeUpper (traced refuse) fanout_page 0 fanout_tables 252 ((), log)
          = Break ((), log)"
    by (simp add: processPage_cell_def fanout_length)
  then show ?case by (subst processPage_loop.simps) simp
next
  case (step n)
  have "processPage_loop unicodeUpper (traced refuse) fanout_page 0 fanout_tables 65535 n ((), log)
          = processPage_loop unicodeUpper (traced refuse) fanout_page 0 fanout_tables 65535 (Suc n)
              ((), log @ fanout_calls)"
    using step.hyps fanout_cell_run [of n unicodeUpper log] by (subst processPage_loop.simps) simp
  also have "\<dots> = (Returns (), ((), (log @ fanout_calls)
                        @ concat (replicate (252 - Suc n) fanout_calls)))"
    by (rule step.IH)
  also have "(log @ fanout_calls) @ concat (replicate (252 - Suc n) fanout_calls)
               = log @ concat (replicate (252 - n) fanout_calls)"
  proof -
    from step.hyps have "252 - n = Suc (252 - Suc n)" by simp
    then show ?thesis by simp
  qed
  finally show ?case .
qed

lemma fanout_run:
  "processPage unicodeUpper (traced refuse) fanout_page 1 fanout_tables ((), [])
     = (Returns None, ((), concat (replicate 252 fanout_calls)))"
proof -
  have "slice fanout_page 3 5 = Returns [0xFF, 0xFF]"
    by (simp add: slice_def fanout_length) (simp add: fanout_page_def)
  moreover have "BigEndian_Uint16 [0xFF, 0xFF] = Returns 65535"
    by (simp add: BigEndian_Uint16_def index_def be_uint16_def)
  moreover have "index fanout_page 0 = Returns 0x0D" by (simp add: index_def fanout_page_def)
  ultimately show ?thesis
    using fanout_loop [of 0 unicodeUpper "[]"] by (simp add: processPage_def fanout_length)
qed

lemma fanout_calls_count: "length (concat (replicate 252 fanout_calls)) = 504"
  using length_concat_pairs [of 252 "fanout_calls ! 0" "fanout_calls ! 1"]
  by (simp add: fanout_calls_def)


lemma zero_header_run:
  "processPage unicodeUpper (traced refuse) zero_header_page 1 fanout_tables ((), log)
     = (Panics SliceLowAboveHigh, ((), log))"
  by (simp add: processPage_def zero_header_page_def index_def slice_def BigEndian_Uint16_def
      be_uint16_def processPage_loop.simps processPage_cell_def slice_from_def readVarint_def
      readVarint_loop.simps parseRecord_def)

lemma slice_inverted_inside:
  "slice s lo hi = Panics SliceLowAboveHigh
     \<longleftrightarrow> 0 \<le> hi \<and> hi < lo \<and> lo \<le> int (length s)"
  by (auto simp: slice_def)

text \<open>
  Claim C10, as amended. For every page that holds its whole B-tree header (header offset
  plus 8 bytes, true of every page size of the data model) and whatever its cell count
  says: at most \<open>(PageSize - 8) div 2\<close> rows are handed to the dispatcher, the database
  reached being the one these rows lead to; at most \<open>(PageSize - 8) div 2\<close> inserts are
  accepted and at most \<open>(PageSize - 8) div 2\<close> times the number of schemas insert calls
  are made, a row being offered to each schema of its arity until one insert succeeds.
  Every index and slice expression of the scanner and of the decoders it calls carries
  its run-time check, and none ever fails for an index or a bound at or beyond the end
  of the page or of the slice it is applied to: the one panic that can leave
  \<open>processPage\<close> is that of a slice expression whose bounds both lie inside the slice
  and are inverted. The cell loop breaks at the first pointer slot that would extend past
  the page end and skips a cell whose offset is at or past the page end.
\<close>

theorem processPage_bounded:
  assumes hdr: "(if pageIndex = 0 then 100 else 0) + 8 \<le> length pageData"
    and run: "processPage unicodeUpper (traced Exec) pageData pageIndex tables (db, log)
                = (r, (db', log'))"
  shows "(\<exists>rows. length rows \<le> (length pageData - 8) div 2
            \<and> (db', log') = dispatch_all unicodeUpper (traced Exec) tables rows (db, log))
         \<and> (\<exists>new. log' = log @ new
            \<and> placed new \<le> (length pageData - 8) div 2
            \<and> length new \<le> (length pageData - 8) div 2 * length tables)
         \<and> (\<forall>p. r = Panics p \<longrightarrow> p = SliceLowAboveHigh)
         \<and> (\<forall>s lo hi. slice s lo hi = Panics SliceLowAboveHigh
               \<longrightarrow> 0 \<le> hi \<and> hi < lo \<and> lo \<le> int (length (s :: byte list)))
         \<and> (\<forall>i s. length pageData < (if pageIndex = 0 then 100 else 0) + 8 + i * 2 + 2
               \<longrightarrow> processPage_cell unicodeUpper (traced Exec) pageData
                     (if pageIndex = 0 then 100 else 0) tables i s = Break s)
         \<and> (\<forall>i s. (if pageIndex = 0 then 100 else 0) + 8 + i * 2 + 2 \<le> length pageData
                 \<and> length pageData
                     \<le> unat (be_uint16 (take 2
                          (drop ((if pageIndex = 0 then 100 else 0) + 8 + i * 2) pageData)))
               \<longrightarrow> processPage_cell unicodeUpper (traced Exec) pageData
                     (if pageIndex = 0 then 100 else 0) tables i s = Continue s)"
proof -
  have cells:
    "\<forall>i s. length pageData < (if pageIndex = 0 then 100 else 0) + 8 + i * 2 + 2
       \<longrightarrow> processPage_cell unicodeUpper (traced Exec) pageData
             (if pageIndex = 0 then 100 else 0) tables i s = Break s"
    "\<forall>i s. (if pageIndex = 0 then 100 else 0) + 8 + i * 2 + 2 \<le> length pageData
         \<and> length pageData
             \<le> unat (be_uint16 (take 2
                  (drop ((if pageIndex = 0 then 100 else 0) + 8 + i * 2) pageData)))
       \<longrightarrow> processPage_cell unicodeUpper (traced Exec) pageData
             (if pageIndex = 0 then 100 else 0) tables i s = Continue s"
    by (auto intro: processPage_cell_breaks processPage_cell_skips)
  have inv: "\<forall>s lo hi. slice s lo hi = Panics SliceLowAboveHigh
               \<longrightarrow> 0 \<le> hi \<and> hi < lo \<and> lo \<le> int (length (s :: byte list))"
    by (simp add: slice_inverted_inside)
  define headerOffset :: nat where "headerOffset = (if pageIndex = 0 then 100 else 0)"
  let ?cap = "(length pageData - 8) div 2"
  have flag: "index pageData headerOffset = Returns (pageData ! headerOffset)"
    using hdr by (simp add: index_def headerOffset_def)
  show ?thesis
  proof (cases "pageData ! headerOffset \<noteq> 0x0D")
    case True
    then have "processPage unicodeUpper (traced Exec) pageData pageIndex tables (db, log)
                 = (Returns None, (db, log))"
      using hdr flag by (simp add: processPage_def headerOffset_def Let_def)
    with run have res: "r = Returns None" "db' = db" "log' = log" by simp_all
    have "length ([] :: (64 word \<times> val list) list) \<le> ?cap
            \<and> (db', log') = dispatch_all unicodeUpper (traced Exec) tables [] (db, log)"
      using res by (simp add: dispatch_all_def)
    then have rows: "\<exists>rows. length rows \<le> ?cap
            \<and> (db', log') = dispatch_all unicodeUpper (traced Exec) tables rows (db, log)"
      by blast
    have "log' = log @ [] \<and> placed [] \<le> ?cap
            \<and> length ([] :: (string \<times> val list \<times> bool) list) \<le> ?cap * length tables"
      using res by simp
    then have new: "\<exists>new. log' = log @ new \<and> placed new \<le> ?cap
            \<and> length new \<le> ?cap * length tables"
      by blast
    have "\<forall>p. r = Panics p \<longrightarrow> p = SliceLowAboveHigh" using res by simp
    with rows new inv cells show ?thesis by blast
  next
    case False
    obtain hdrbytes where hb:
      "slice pageData (int headerOffset + 3) (int headerOffset + 5) = Returns hdrbytes"
      using hdr by (simp add: slice_def headerOffset_def)
    have "length hdrbytes = 2"
      using hb hdr by (auto simp: slice_def headerOffset_def split: if_splits)
    then have be: "BigEndian_Uint16 hdrbytes = Returns (be_uint16 hdrbytes)"
      by (simp add: BigEndian_Uint16_eq)
    define numCells where "numCells = unat (be_uint16 hdrbytes)"
    define res where
      "res = processPage_loop unicodeUpper (traced Exec) pageData headerOffset tables numCells 0
               (db, log)"
    obtain rows where rows: "length rows \<le> (length pageData - (headerOffset + 8)) div 2 - 0"
        "snd res = dispatch_all unicodeUpper (traced Exec) tables rows (db, log)"
        "\<forall>p. fst res = Panics p \<longrightarrow> p = SliceLowAboveHigh"
      unfolding res_def
      using processPage_loop_rows [where pd = pageData and headerOffset = headerOffset
          and unicodeUpper = unicodeUpper
          and Exec = "traced Exec" and tables = tables and numCells = numCells and i = 0
          and s = "(db, log)"]
      by blast
    obtain d new where new: "dispatch_all unicodeUpper (traced Exec) tables rows (db, log)
                               = (d, log @ new)"
        "length new \<le> length rows * length tables" "placed new \<le> length rows"
      using dispatch_all_traced [of unicodeUpper Exec tables rows db log] by blast
    have pp: "processPage unicodeUpper (traced Exec) pageData pageIndex tables (db, log) =
        (case res of (Panics p, outDB') \<Rightarrow> (Panics p, outDB')
                   | (Returns u, outDB') \<Rightarrow> (Returns None, outDB'))"
      using False hdr hb be flag
      by (simp add: processPage_def headerOffset_def [symmetric] numCells_def res_def Let_def)
    have sn: "snd (processPage unicodeUpper (traced Exec) pageData pageIndex tables (db, log))
                = snd res"
      unfolding pp by (cases res; cases "fst res") auto
    then have st: "(db', log') = dispatch_all unicodeUpper (traced Exec) tables rows (db, log)"
      using run rows(2) by simp
    then have l: "log' = log @ new" using new(1) by simp
    have "\<forall>p. fst (processPage unicodeUpper (traced Exec) pageData pageIndex tables (db, log))
                 = Panics p \<longrightarrow> p = SliceLowAboveHigh"
      unfolding pp using rows(3) by (cases res; cases "fst res") auto
    then have r: "\<forall>p. r = Panics p \<longrightarrow> p = SliceLowAboveHigh" using run by simp
    have le: "length rows \<le> ?cap" using rows(1) by simp
    then have "placed new \<le> ?cap" using new(3) by simp
    moreover have "length new \<le> ?cap * length tables"
      using new(2) le by (meson le_trans mult_le_mono1)
    ultimately have "\<exists>new. log' = log @ new \<and> placed new \<le> ?cap
            \<and> length new \<le> ?cap * length tables"
      using l by blast
    moreover have "\<exists>rows. length rows \<le> ?cap
            \<and> (db', log') = dispatch_all unicodeUpper (traced Exec) tables rows (db, log)"
      using le st by blast
    ultimately show ?thesis using r inv cells by blast
  qed
qed

theorem processPage_bounded_witness:
  "8 \<le> length fanout_page
   \<and> processPage identity_upper (traced refuse) fanout_page 1 fanout_tables ((), [])
        = (Returns None, ((), concat (replicate 252 fanout_calls)))
   \<and> (\<exists>rows. length rows \<le> (length fanout_page - 8) div 2
          \<and> ((), concat (replicate 252 fanout_calls))
                = dispatch_all identity_upper (traced refuse) fanout_tables rows ((), []))
   \<and> placed (concat (replicate 252 fanout_calls)) \<le> (length fanout_page - 8) div 2
   \<and> length (concat (replicate 252 fanout_calls))
        \<le> (length fanout_page - 8) div 2 * length fanout_tables
   \<and> processPage_cell identity_upper (traced refuse) fanout_page 0 fanout_tables 252 ((), [])
        = Break ((), [])
   \<and> processPage_cell identity_upper (traced refuse) [0x0D, 0, 0, 0, 1, 0, 0, 0, 0xFF, 0xFF] 0
        fanout_tables 0 ((), []) = Continue ((), [])
   \<and> 8 \<le> length zero_header_page
   \<and> processPage identity_upper (traced refuse) zero_header_page 1 fanout_tables ((), [])
        = (Panics SliceLowAboveHigh, ((), []))
   \<and> slice [0x00 :: byte] 1 0 = Panics SliceLowAboveHigh
   \<and> (0 :: int) \<le> 0 \<and> (0 :: int) < 1 \<and> (1 :: int) \<le> int (length [0x00 :: byte])"
proof -
  have h: "(if (1 :: int) = 0 then 100 else 0) + 8 \<le> length fanout_page"
    by (simp add: fanout_length)
  note b = processPage_bounded [OF h fanout_run [of identity_upper]]
  have 0: "\<exists>rows. length rows \<le> (length fanout_page - 8) div 2
          \<and> ((), concat (replicate 252 fanout_calls))
                = dispatch_all identity_upper (traced refuse) fanout_tables rows ((), [])"
    using b by blast
  have 1: "(\<exists>new. concat (replicate 252 fanout_calls) = [] @ new
            \<and> placed new \<le> (length fanout_page - 8) div 2
            \<and> length new \<le> (length fanout_page - 8) div 2 * length fanout_tables)"
    using b by blast
  have 2: "\<forall>i s. length fanout_page < (if (1 :: int) = 0 then 100 else 0) + 8 + i * 2 + 2
               \<longrightarrow> processPage_cell identity_upper (traced refuse) fanout_page
                     (if (1 :: int) = 0 then 100 else 0) fanout_tables i s = Break s"
    using b by blast
  let ?short = "[0x0D, 0, 0, 0, 1, 0, 0, 0, 0xFF, 0xFF :: byte]"
  have h': "(if (1 :: int) = 0 then 100 else 0) + 8 \<le> length ?short" by simp
  obtain r d l where
    run': "processPage identity_upper (traced refuse) ?short 1 fanout_tables ((), []) = (r, (d, l))"
    by (metis surj_pair)
  have 3: "\<forall>i s. (if (1 :: int) = 0 then 100 else 0) + 8 + i * 2 + 2 \<le> length ?short
                 \<and> length ?short
                     \<le> unat (be_uint16 (take 2
                          (drop ((if (1 :: int) = 0 then 100 else 0) + 8 + i * 2) ?short)))
               \<longrightarrow> processPage_cell identity_upper (traced refuse) ?short
                     (if (1 :: int) = 0 then 100 else 0) fanout_tables i s = Continue s"
    using processPage_bounded [OF h' run'] by blast
  have h'': "(if (1 :: int) = 0 then 100 else 0) + 8 \<le> length zero_header_page"
    by (simp add: zero_header_page_def)
  note z = processPage_bounded [OF h'' zero_header_run [of identity_upper "[]"]]
  have 4: "\<forall>p. Panics SliceLowAboveHigh = (Panics p :: error option exec)
               \<longrightarrow> p = SliceLowAboveHigh"
    using z by blast
  have 5: "\<forall>s lo hi. slice s lo hi = Panics SliceLowAboveHigh
               \<longrightarrow> 0 \<le> hi \<and> hi < lo \<and> lo \<le> int (length (s :: byte list))"
    using z by blast
  have inv: "slice [0x00 :: byte] 1 0 = Panics SliceLowAboveHigh"
    by (simp add: slice_def)
  have "processPage_cell identity_upper (traced refuse) fanout_page 0 fanout_tables 252 ((), [])
          = Break ((), [])"
    using 2 [rule_format, of 252 "((), [])"] by (simp add: fanout_length)
  moreover have "processPage_cell identity_upper (traced refuse) ?short 0 fanout_tables 0 ((), [])
                   = Continue ((), [])"
    using 3 [rule_format, of 0 "((), [])"] by (simp add: be_uint16_def)
  moreover have "(0 :: int) \<le> 0 \<and> (0 :: int) < 1 \<and> (1 :: int) \<le> int (length [0x00 :: byte])"
    using 5 [rule_format, OF inv] .
  ultimately show ?thesis
    using 0 1 4 inv fanout_run [of identity_upper] zero_header_run [of identity_upper "[]"]
    by (simp add: fanout_length zero_header_page_def)
qed

text \<open>
  Claim C10, as stated, fails: a 512-byte leaf page whose 252 pointer slots all point at
  one well-formed eight-column cell, scanned against two eight-column schemas whose
  inserts are refused, causes 504 insert calls, more than \<open>(512 - 8) div 2 = 252\<close>.
\<close>

theorem processPage_calls_counterexample:
  "length fanout_page = 512
   \<and> \<not> length (snd (snd (processPage identity_upper (traced refuse) fanout_page 1
                           fanout_tables ((), []))))
         \<le> (length fanout_page - 8) div 2"
  by (simp add: fanout_run fanout_calls_count fanout_length)

section \<open>Properties of the serial-type decoder\<close>

lemma be_nat_snoc: "be_nat (bs @ [b]) = be_nat bs * 256 + unat b"
  by (simp add: be_nat_def)

lemma be_word_snoc: "be_word (bs @ [b]) = ucast b OR push_bit 8 (be_word bs)"
  by (simp add: be_word_def)

lemma be_nat_bound: "be_nat bs < 2 ^ (8 * length bs)"
proof (induction bs rule: rev_induct)
  case Nil
  show ?case by (simp add: be_nat_def)
next
  case (snoc b bs)
  have "unat b < 256" using unsigned_less [of b, where ?'a = nat] by simp
  moreover have "be_nat bs + 1 \<le> 2 ^ (8 * length bs)" using snoc by simp
  then have "(be_nat bs + 1) * 256 \<le> 2 ^ (8 * length bs) * 256" by (rule mult_le_mono1)
  ultimately have "be_nat bs * 256 + unat b < 2 ^ (8 * length bs) * 256" by simp
  then show ?case by (simp add: be_nat_snoc power_add mult.commute)
qed

lemma or_byte_push:
  fixes r :: "'a::len word"
  shows "ucast (b :: byte) OR push_bit 8 r = ucast b + push_bit 8 r"
proof -
  have "ucast b AND push_bit 8 r = 0"
  proof (rule bit_word_eqI)
    fix n
    assume "n < LENGTH('a)"
    have "bit b n \<Longrightarrow> n < 8" using bit_imp_le_length [of b n] by simp
    then show "bit (ucast b AND push_bit 8 r) n \<longleftrightarrow> bit (0 :: 'a word) n"
      by (auto simp: bit_simps)
  qed
  then show ?thesis by (simp add: disjunctive_add_eq_or)
qed

lemma unat_be_word:
  "8 * length bs \<le> LENGTH('a) \<Longrightarrow> unat (be_word bs :: 'a::len word) = be_nat bs"
proof (induction bs rule: rev_induct)
  case Nil
  show ?case by (simp add: be_word_def be_nat_def)
next
  case (snoc b bs)
  have IH: "unat (be_word bs :: 'a word) = be_nat bs" using snoc by simp
  have bound: "be_nat (bs @ [b]) < 2 ^ LENGTH('a)"
    using be_nat_bound [of "bs @ [b]"] snoc.prems
    by (meson less_le_trans one_le_numeral power_increasing)
  have "unat (be_word (bs @ [b]) :: 'a word)
          = unat (ucast b + push_bit 8 (be_word bs) :: 'a word)"
    by (simp add: be_word_snoc or_byte_push)
  also have "\<dots> = (unat b + 256 * be_nat bs) mod 2 ^ LENGTH('a)"
    by (simp add: unat_word_ariths unsigned_ucast_eq unsigned_push_bit_eq take_bit_eq_mod
        push_bit_eq_mult IH mod_simps mult.commute)
  also have "\<dots> = be_nat (bs @ [b])"
    using bound by (simp add: be_nat_snoc add.commute mult.commute)
  finally show ?case .
qed

lemma take_as_nths: "n \<le> length xs \<Longrightarrow> take n xs = map ((!) xs) [0 ..< n]"
  by (rule nth_equalityI) auto

lemma be_uint16_eq: "2 \<le> length buf \<Longrightarrow> be_uint16 buf = be_word (take 2 buf)"
  by (simp add: take_as_nths be_word_def be_uint16_def upt_conv_Cons)

lemma be_uint32_eq: "4 \<le> length buf \<Longrightarrow> be_uint32 buf = be_word (take 4 buf)"
  by (simp add: take_as_nths be_word_def be_uint32_def upt_conv_Cons)
    (simp add: eval_nat_numeral)

lemma be_uint64_eq: "8 \<le> length buf \<Longrightarrow> be_uint64 buf = be_word (take 8 buf)"
  by (simp add: take_as_nths be_word_def be_uint64_def upt_conv_Cons)
    (simp add: eval_nat_numeral)

lemma sint_if:
  fixes w :: "'a::len word"
  shows "sint w = (if uint w < 2 ^ (LENGTH('a) - 1) then uint w else uint w - 2 ^ LENGTH('a))"
proof -
  obtain n where n: "LENGTH('a) = Suc n" by (cases "LENGTH('a)") auto
  have b: "0 \<le> uint w" "uint w < 2 * 2 ^ n"
    using uint_lt2p [of w] n by auto
  have "sint w = (uint w + 2 ^ n) mod (2 * 2 ^ n) - 2 ^ n"
    by (simp add: sint_uint n signed_take_bit_eq_take_bit_shift take_bit_eq_mod)
  also have "\<dots> = (if uint w < 2 ^ n then uint w else uint w - 2 * 2 ^ n)"
  proof (cases "uint w < 2 ^ n")
    case True
    then have "(uint w + 2 ^ n) mod (2 * 2 ^ n) = uint w + 2 ^ n"
      using b by (intro mod_pos_pos_trivial) auto
    with True show ?thesis by simp
  next
    case False
    then have "(uint w + 2 ^ n) mod (2 * 2 ^ n) = uint w + 2 ^ n - 2 * 2 ^ n"
      using b by (subst mod_pos_geq) (auto intro: mod_pos_pos_trivial)
    with False show ?thesis by simp
  qed
  finally show ?thesis by (simp add: n)
qed

lemma sint_be_word:
  "LENGTH('a) = 8 * length bs \<Longrightarrow> sint (be_word bs :: 'a::len word) = be_signed bs"
  using unat_be_word [of bs, where ?'a = 'a]
  by (simp add: sint_if [of "be_word bs :: 'a word"] be_signed_def uint_nat)

lemma code_eq_iff: "(t :: 64 word) = numeral k \<longleftrightarrow> unat t = unat (numeral k :: 64 word)"
  by (simp only: word_unat_eq_iff)

lemma blob_width: "12 \<le> (t :: 64 word) \<Longrightarrow> unat ((t - 12) div 2) = (unat t - 12) div 2"
  by (simp add: unat_div unat_sub)

lemma text_width: "13 \<le> (t :: 64 word) \<Longrightarrow> unat ((t - 13) div 2) = (unat t - 13) div 2"
  by (simp add: unat_div unat_sub)

lemma code_even: "(t :: 64 word) mod 2 = 0 \<longleftrightarrow> even (unat t)"
  by (simp add: word_unat_eq_iff unat_mod even_iff_mod_2_eq_zero)

lemma code_odd: "(t :: 64 word) mod 2 = 1 \<longleftrightarrow> odd (unat t)"
  by (simp add: word_unat_eq_iff unat_mod odd_iff_mod_2_eq_one)

lemma int8: "sint (scast (b :: byte) :: 64 word) = be_signed [b]"
proof -
  have "(be_word [b] :: byte) = b" by (simp add: be_word_def)
  then have "sint b = be_signed [b]" using sint_be_word [of "[b]", where ?'a = 8] by simp
  then show ?thesis by (simp add: sint_up_scast is_up)
qed

lemma int16: "2 \<le> length buf \<Longrightarrow> sint (scast (be_uint16 buf) :: 64 word) = be_signed (take 2 buf)"
  using sint_be_word [of "take 2 buf", where ?'a = 16]
  by (simp add: sint_up_scast is_up be_uint16_eq)

lemma int32: "4 \<le> length buf \<Longrightarrow> sint (scast (be_uint32 buf) :: 64 word) = be_signed (take 4 buf)"
  using sint_be_word [of "take 4 buf", where ?'a = 32]
  by (simp add: sint_up_scast is_up be_uint32_eq)

lemma int64: "8 \<le> length buf \<Longrightarrow> sint (be_uint64 buf) = be_signed (take 8 buf)"
  using sint_be_word [of "take 8 buf", where ?'a = 64]
  by (simp add: be_uint64_eq)

lemma float64: "8 \<le> length buf \<Longrightarrow> unat (be_uint64 buf) = be_nat (take 8 buf)"
  using unat_be_word [of "take 8 buf", where ?'a = 64]
  by (simp add: be_uint64_eq)

lemma low_bits:
  fixes lo :: "64 word"
  assumes "uint lo < 2 ^ k" and "bit lo n"
  shows "n < k"
proof -
  have "take_bit k (uint lo) = uint lo"
    using assms(1) by (intro take_bit_int_eq_self) auto
  moreover have "bit (uint lo) n" using assms(2) by (simp add: bit_simps)
  ultimately have "bit (take_bit k (uint lo)) n" by simp
  then show ?thesis by (simp add: bit_simps)
qed

lemma or_top_disjoint:
  fixes lo hi :: "64 word"
  assumes "uint lo < 2 ^ k"
  shows "push_bit k hi OR lo = word_of_int (uint hi * 2 ^ k + uint lo)"
    and "push_bit k hi OR lo = word_of_int (sint hi * 2 ^ k + uint lo)"
proof -
  have "push_bit k hi AND lo = 0"
  proof (rule bit_word_eqI)
    fix n
    show "bit (push_bit k hi AND lo) n \<longleftrightarrow> bit (0 :: 64 word) n"
      using low_bits [OF assms, of n] by (auto simp: bit_simps)
  qed
  then have sum: "push_bit k hi OR lo = push_bit k hi + lo"
    by (simp add: disjunctive_add_eq_or)
  show "push_bit k hi OR lo = word_of_int (uint hi * 2 ^ k + uint lo)"
    unfolding sum by (simp add: push_bit_eq_mult)
  show "push_bit k hi OR lo = word_of_int (sint hi * 2 ^ k + uint lo)"
    unfolding sum by (simp add: push_bit_eq_mult)
qed

lemma uint_byte_range: "0 \<le> uint (b :: byte) \<and> uint b < 256"
  using uint_lt2p [of b] by simp

lemma sint_byte: "sint (b :: byte) = (if uint b < 128 then uint b else uint b - 256)"
  using sint_if [of b] by simp

lemma sint_byte_range: "- 128 \<le> sint (b :: byte) \<and> sint b < 128"
  using sint_ge [of b] sint_lt [of b] by simp

lemma uint_woi:
  assumes "0 \<le> z" and "z < 2 ^ 64"
  shows "uint (word_of_int z :: 64 word) = z"
proof -
  have "uint (word_of_int z :: 64 word) = take_bit 64 z"
    by (simp only: uint_word_of_int_eq len_bit0 len_num1 mult_1_right) simp
  then show ?thesis using assms by (simp add: take_bit_int_eq_self)
qed

lemma sint_woi:
  assumes "- (2 ^ 63) \<le> z" and "z < 2 ^ 63"
  shows "sint (word_of_int z :: 64 word) = z"
proof -
  have "sint (word_of_int z :: 64 word) = signed_take_bit 63 z"
    by (simp only: sint_sbintrunc') simp
  then show ?thesis using assms by (simp add: signed_take_bit_int_eq_self)
qed

lemma two_bytes:
  "uint (push_bit 8 (ucast (b1 :: byte)) OR ucast (b2 :: byte) :: 64 word)
     = uint b1 * 256 + uint b2"
proof -
  have lo: "uint (ucast b2 :: 64 word) = uint b2" by (simp add: uint_up_ucast is_up)
  have hi: "uint (ucast b1 :: 64 word) = uint b1" by (simp add: uint_up_ucast is_up)
  have "uint (ucast b2 :: 64 word) < 2 ^ 8" using uint_byte_range [of b2] lo by simp
  from or_top_disjoint(1) [OF this, of "ucast b1"]
  have "push_bit 8 (ucast b1) OR ucast b2 = (word_of_int (uint b1 * 2 ^ 8 + uint b2) :: 64 word)"
    by (simp only: lo hi)
  moreover have "uint (word_of_int (uint b1 * 2 ^ 8 + uint b2) :: 64 word)
                   = uint b1 * 2 ^ 8 + uint b2"
    using uint_byte_range [of b1] uint_byte_range [of b2] by (intro uint_woi) auto
  ultimately show ?thesis by simp
qed

lemma int24:
  "sint (push_bit 16 (scast (b0 :: byte)) OR push_bit 8 (ucast (b1 :: byte)) OR ucast (b2 :: byte)
           :: 64 word)
     = sint b0 * 65536 + uint b1 * 256 + uint b2"
proof -
  let ?lo = "push_bit 8 (ucast b1) OR ucast b2 :: 64 word"
  have lo: "uint ?lo = uint b1 * 256 + uint b2" by (rule two_bytes)
  have hi: "sint (scast b0 :: 64 word) = sint b0" by (simp add: sint_up_scast is_up)
  have "uint ?lo < 2 ^ 16"
    using uint_byte_range [of b1] uint_byte_range [of b2] lo by simp
  from or_top_disjoint(2) [OF this, of "scast b0"]
  have "push_bit 16 (scast b0) OR ?lo
          = (word_of_int (sint b0 * 2 ^ 16 + (uint b1 * 256 + uint b2)) :: 64 word)"
    by (simp only: lo hi)
  moreover have "sint (word_of_int (sint b0 * 2 ^ 16 + (uint b1 * 256 + uint b2)) :: 64 word)
                   = sint b0 * 2 ^ 16 + (uint b1 * 256 + uint b2)"
  proof -
    have "- 9223372036854775808 \<le> sint b0 * 65536 + (uint b1 * 256 + uint b2)"
      and "sint b0 * 65536 + (uint b1 * 256 + uint b2) < 9223372036854775808"
      using sint_byte_range [of b0] uint_byte_range [of b1] uint_byte_range [of b2]
      by linarith+
    then show ?thesis by (intro sint_woi) simp_all
  qed
  ultimately show ?thesis by simp
qed

lemma be_nat_append: "be_nat (xs @ ys) = be_nat xs * 256 ^ length ys + be_nat ys"
proof (induction ys rule: rev_induct)
  case Nil
  show ?case by (simp add: be_nat_def)
next
  case (snoc y ys)
  have "be_nat (xs @ ys @ [y]) = be_nat (xs @ ys) * 256 + unat y"
    using be_nat_snoc [of "xs @ ys" y] by simp
  then show ?case by (simp add: snoc be_nat_snoc algebra_simps)
qed

lemma signed_from_top_byte:
  assumes "0 \<le> r" and "r < 2 ^ k"
  shows "(if (uint (b0 :: byte) * 2 ^ k + r) < 2 ^ (k + 7) then uint b0 * 2 ^ k + r
          else uint b0 * 2 ^ k + r - 2 ^ (k + 8))
         = sint b0 * 2 ^ k + r"
proof -
  define p :: int where "p = 2 ^ k"
  have pos: "0 < p" by (simp add: p_def)
  have e7: "(2 :: int) ^ (k + 7) = 128 * p" and e8: "(2 :: int) ^ (k + 8) = 256 * p"
    by (simp_all add: p_def power_add)
  have r: "0 \<le> r" "r < p" using assms by (simp_all add: p_def)
  show ?thesis
    unfolding e7 e8 p_def [symmetric]
  proof (cases "uint b0 < 128")
    case True
    then have "uint b0 + 1 \<le> 128" by simp
    then have "(uint b0 + 1) * p \<le> 128 * p" using pos by (intro mult_right_mono) auto
    then have "uint b0 * p + p \<le> 128 * p" by (simp only: distrib_right mult_1)
    then have "uint b0 * p + r < 128 * p" using r by linarith
    moreover have "sint b0 = uint b0" using True by (simp add: sint_byte)
    ultimately show "(if uint b0 * p + r < 128 * p then uint b0 * p + r
          else uint b0 * p + r - 256 * p) = sint b0 * p + r"
      by simp
  next
    case False
    then have "128 \<le> uint b0" by simp
    then have "128 * p \<le> uint b0 * p" using pos by (intro mult_right_mono) auto
    then have "\<not> uint b0 * p + r < 128 * p" using r by linarith
    moreover have "sint b0 = uint b0 - 256" using False by (simp add: sint_byte)
    ultimately show "(if uint b0 * p + r < 128 * p then uint b0 * p + r
          else uint b0 * p + r - 256 * p) = sint b0 * p + r"
      by (simp add: left_diff_distrib)
  qed
qed

lemma be_signed_top:
  "be_signed (b0 # bs) = sint b0 * 2 ^ (8 * length bs) + int (be_nat bs)"
proof -
  have n: "int (be_nat (b0 # bs)) = uint b0 * 2 ^ (8 * length bs) + int (be_nat bs)"
    using be_nat_append [of "[b0]" bs] by (simp add: be_nat_def power_mult)
  have r: "int (be_nat bs) < 2 ^ (8 * length bs)"
    using be_nat_bound [of bs] by (metis of_nat_less_iff of_nat_numeral of_nat_power)
  have w: "8 * length (b0 # bs) = 8 * length bs + 8" "8 * length bs + 8 - 1 = 8 * length bs + 7"
    by simp_all
  show ?thesis
    unfolding be_signed_def n w
    by (rule signed_from_top_byte) (use r in simp_all)
qed

lemma int48:
  "sint (push_bit 40 (scast (b0 :: byte)) OR push_bit 32 (ucast (b1 :: byte))
           OR ucast (w :: 32 word) :: 64 word)
     = sint b0 * 2 ^ 40 + (uint b1 * 2 ^ 32 + uint w)"
proof -
  let ?lo = "push_bit 32 (ucast b1) OR ucast w :: 64 word"
  have lw: "uint (ucast w :: 64 word) = uint w" by (simp add: uint_up_ucast is_up)
  have hb: "uint (ucast b1 :: 64 word) = uint b1" by (simp add: uint_up_ucast is_up)
  have wr: "0 \<le> uint w \<and> uint w < 4294967296" using uint_lt2p [of w] by simp
  then have "uint (ucast w :: 64 word) < 2 ^ 32" using lw by simp
  from or_top_disjoint(1) [OF this, of "ucast b1"]
  have "?lo = (word_of_int (uint b1 * 2 ^ 32 + uint w) :: 64 word)"
    by (simp only: lw hb)
  moreover have "uint (word_of_int (uint b1 * 2 ^ 32 + uint w) :: 64 word)
                   = uint b1 * 2 ^ 32 + uint w"
  proof -
    have "0 \<le> uint b1 * 4294967296 + uint w"
      and "uint b1 * 4294967296 + uint w < 18446744073709551616"
      using uint_byte_range [of b1] wr by linarith+
    then show ?thesis by (intro uint_woi) simp_all
  qed
  ultimately have lo: "uint ?lo = uint b1 * 2 ^ 32 + uint w" by simp
  have hi: "sint (scast b0 :: 64 word) = sint b0" by (simp add: sint_up_scast is_up)
  have "uint b1 * 4294967296 + uint w < 1099511627776"
    using uint_byte_range [of b1] wr by linarith
  then have "uint ?lo < 2 ^ 40" using lo by simp
  from or_top_disjoint(2) [OF this, of "scast b0"]
  have "push_bit 40 (scast b0) OR ?lo
          = (word_of_int (sint b0 * 2 ^ 40 + (uint b1 * 2 ^ 32 + uint w)) :: 64 word)"
    by (simp only: lo hi)
  moreover have "sint (word_of_int (sint b0 * 2 ^ 40 + (uint b1 * 2 ^ 32 + uint w)) :: 64 word)
                   = sint b0 * 2 ^ 40 + (uint b1 * 2 ^ 32 + uint w)"
  proof -
    have "- 9223372036854775808 \<le> sint b0 * 1099511627776 + (uint b1 * 4294967296 + uint w)"
      and "sint b0 * 1099511627776 + (uint b1 * 4294967296 + uint w) < 9223372036854775808"
      using sint_byte_range [of b0] uint_byte_range [of b1] wr by linarith+
    then show ?thesis by (intro sint_woi) simp_all
  qed
  ultimately show ?thesis by simp
qed

lemma code3:
  assumes "3 \<le> length buf"
  shows "sint (push_bit 16 (scast (buf ! 0)) OR push_bit 8 (ucast (buf ! 1)) OR ucast (buf ! 2)
                 :: 64 word) = be_signed (take 3 buf)"
proof -
  have t: "take 3 buf = [buf ! 0, buf ! 1, buf ! 2]"
    using assms by (simp add: take_as_nths upt_conv_Cons) (simp add: eval_nat_numeral)
  have "int (be_nat [buf ! 1, buf ! 2]) = uint (buf ! 1) * 256 + uint (buf ! 2)"
    by (simp add: be_nat_def)
  then show ?thesis
    unfolding t using be_signed_top [of "buf ! 0" "[buf ! 1, buf ! 2]"] int24 [of "buf ! 0" "buf ! 1" "buf ! 2"]
    by simp
qed

lemma code5:
  assumes "6 \<le> length buf"
  shows "sint (push_bit 40 (scast (buf ! 0)) OR push_bit 32 (ucast (buf ! 1))
                 OR ucast (be_uint32 (drop 2 buf)) :: 64 word) = be_signed (take 6 buf)"
proof -
  let ?rest = "take 4 (drop 2 buf)"
  have t: "take 6 buf = buf ! 0 # buf ! 1 # ?rest"
  proof -
    have "take 6 buf = take 2 buf @ take 4 (drop 2 buf)"
      using take_add [of 2 4 buf] by simp
    moreover have "take 2 buf = [buf ! 0, buf ! 1]"
      using assms by (simp add: take_as_nths upt_conv_Cons)
    ultimately show ?thesis by simp
  qed
  have len: "length ?rest = 4" using assms by simp
  have w: "uint (be_uint32 (drop 2 buf)) = int (be_nat ?rest)"
    using unat_be_word [of ?rest, where ?'a = 32] assms len
    by (simp add: be_uint32_eq uint_nat)
  have "be_nat (buf ! 1 # ?rest) = unat (buf ! 1) * 256 ^ 4 + be_nat ?rest"
    using be_nat_append [of "[buf ! 1]" ?rest] len by (simp add: be_nat_def)
  then have n: "int (be_nat (buf ! 1 # ?rest))
                  = uint (buf ! 1) * 2 ^ 32 + uint (be_uint32 (drop 2 buf))"
    using w by simp
  show ?thesis
    unfolding t
    using be_signed_top [of "buf ! 0" "buf ! 1 # ?rest"] n len
      int48 [of "buf ! 0" "buf ! 1" "be_uint32 (drop 2 buf)"]
    by simp
qed

lemma parseSerialType_large:
  assumes "12 \<le> unat t"
  shows "parseSerialType t buf =
     (if even (unat t) then
        (if length buf < (unat t - 12) div 2 then Inl BufferTooShortForBlob
         else Inr (VBlob (take ((unat t - 12) div 2) buf), (unat t - 12) div 2))
      else
        (if length buf < (unat t - 13) div 2 then Inl BufferTooShortForString
         else Inr (VText (take ((unat t - 13) div 2) buf), (unat t - 13) div 2)))"
proof -
  have ne: "t \<noteq> 0" "t \<noteq> 1" "t \<noteq> 2" "t \<noteq> 3" "t \<noteq> 4" "t \<noteq> 5" "t \<noteq> 6" "t \<noteq> 7"
    "t \<noteq> 8" "t \<noteq> 9"
    using assms by auto
  have ge: "12 \<le> t" using assms by (simp add: word_le_nat_alt)
  show ?thesis
  proof (cases "even (unat t)")
    case True
    then show ?thesis
      using ne ge by (simp add: parseSerialType_def code_even blob_width Let_def)
  next
    case False
    then have "13 \<le> unat t" using assms by (cases "unat t = 12") auto
    then have ge13: "13 \<le> t" by (simp add: word_le_nat_alt)
    show ?thesis
      using False ne ge ge13
      by (simp add: parseSerialType_def code_even code_odd text_width Let_def)
  qed
qed

lemma parseSerialType_short:
  assumes "serial_width (unat t) = Some w" and "length buf < w"
  shows "isl (parseSerialType t buf)"
proof (cases "12 \<le> unat t")
  case True
  then show ?thesis
    using assms by (auto simp: parseSerialType_large serial_width_def split: if_splits)
next
  case False
  then have "unat t = 0 \<or> unat t = 1 \<or> unat t = 2 \<or> unat t = 3 \<or> unat t = 4
    \<or> unat t = 5 \<or> unat t = 6 \<or> unat t = 7 \<or> unat t = 8 \<or> unat t = 9
    \<or> unat t = 10 \<or> unat t = 11"
    by presburger
  then show ?thesis
  proof (elim disjE)
    assume "unat t = 0" then have "t = 0" by (simp add: unat_eq_0)
    then show ?thesis using assms by (simp add: serial_width_def)
  next
    assume "unat t = 1" then have "t = 1" by (simp add: word_unat_eq_iff)
    then show ?thesis using assms by (simp add: serial_width_def parseSerialType_def)
  next
    assume "unat t = 2" then have "t = 2" by (simp add: code_eq_iff)
    then show ?thesis using assms by (simp add: serial_width_def parseSerialType_def)
  next
    assume "unat t = 3" then have "t = 3" by (simp add: code_eq_iff)
    then show ?thesis using assms by (simp add: serial_width_def parseSerialType_def)
  next
    assume "unat t = 4" then have "t = 4" by (simp add: code_eq_iff)
    then show ?thesis using assms by (simp add: serial_width_def parseSerialType_def)
  next
    assume "unat t = 5" then have "t = 5" by (simp add: code_eq_iff)
    then show ?thesis using assms by (simp add: serial_width_def parseSerialType_def)
  next
    assume "unat t = 6" then have "t = 6" by (simp add: code_eq_iff)
    then show ?thesis using assms by (simp add: serial_width_def parseSerialType_def)
  next
    assume "unat t = 7" then have "t = 7" by (simp add: code_eq_iff)
    then show ?thesis using assms by (simp add: serial_width_def parseSerialType_def)
  next
    assume "unat t = 8" then show ?thesis using assms by (simp add: serial_width_def)
  next
    assume "unat t = 9" then show ?thesis using assms by (simp add: serial_width_def)
  next
    assume "unat t = 10" then show ?thesis using assms by (simp add: serial_width_def)
  next
    assume "unat t = 11" then show ?thesis using assms by (simp add: serial_width_def)
  qed
qed

text \<open>
  Claim C6. The decoder follows the table: code 0 is null with width 0; codes 1, 2, 4
  and 6 (and likewise 3 and 5) are the big-endian signed integers of 1, 2, 4 and 8
  (3 and 6) bytes; code 7 is the
  binary64 whose bit pattern is the big-endian value of 8 bytes; codes 8 and 9 are the
  integers 0 and 1 with width 0; an even code from 12 on is a blob of \<open>(code - 12) div 2\<close>
  bytes and an odd code from 13 on a text of \<open>(code - 13) div 2\<close> bytes; and for every
  code with a body width, a buffer shorter than that width is a decode error.
\<close>

theorem parseSerialType_table:
  "parseSerialType 0 buf = Inr (VNull, 0)
   \<and> (\<forall>(t, w) \<in> set [(1, 1), (2, 2), (3, 3), (4, 4), (5, 6), (6, 8)].
        w \<le> length buf \<longrightarrow>
        (\<exists>v. parseSerialType t buf = Inr (VInt v, w) \<and> sint v = be_signed (take w buf)))
   \<and> (8 \<le> length buf \<longrightarrow>
        (\<exists>f. parseSerialType 7 buf = Inr (VFloat f, 8) \<and> unat f = be_nat (take 8 buf)))
   \<and> parseSerialType 8 buf = Inr (VInt 0, 0)
   \<and> parseSerialType 9 buf = Inr (VInt 1, 0)
   \<and> (12 \<le> unat t \<and> even (unat t) \<and> (unat t - 12) div 2 \<le> length buf \<longrightarrow>
        parseSerialType t buf
          = Inr (VBlob (take ((unat t - 12) div 2) buf), (unat t - 12) div 2))
   \<and> (13 \<le> unat t \<and> odd (unat t) \<and> (unat t - 13) div 2 \<le> length buf \<longrightarrow>
        parseSerialType t buf
          = Inr (VText (take ((unat t - 13) div 2) buf), (unat t - 13) div 2))
   \<and> (\<forall>w. serial_width (unat t) = Some w \<and> length buf < w \<longrightarrow> isl (parseSerialType t buf))"
proof (intro conjI)
  show "parseSerialType 0 buf = Inr (VNull, 0)" by (simp add: parseSerialType_def)
  show "parseSerialType 8 buf = Inr (VInt 0, 0)" by (simp add: parseSerialType_def)
  show "parseSerialType 9 buf = Inr (VInt 1, 0)" by (simp add: parseSerialType_def)
  show "\<forall>(t, w) \<in> set [(1, 1), (2, 2), (3, 3), (4, 4), (5, 6), (6, 8)].
        w \<le> length buf \<longrightarrow>
        (\<exists>v. parseSerialType t buf = Inr (VInt v, w) \<and> sint v = be_signed (take w buf))"
  proof -
    have "buf \<noteq> [] \<Longrightarrow> take (Suc 0) buf = [buf ! 0]" by (cases buf) auto
    then show ?thesis
      using int8 [of "buf ! 0"] int16 [of buf] int32 [of buf] int64 [of buf]
        code3 [of buf] code5 [of buf]
      by (simp add: parseSerialType_def)
  qed
  show "8 \<le> length buf \<longrightarrow>
        (\<exists>f. parseSerialType 7 buf = Inr (VFloat f, 8) \<and> unat f = be_nat (take 8 buf))"
    using float64 [of buf] by (simp add: parseSerialType_def)
  show "12 \<le> unat t \<and> even (unat t) \<and> (unat t - 12) div 2 \<le> length buf \<longrightarrow>
        parseSerialType t buf
          = Inr (VBlob (take ((unat t - 12) div 2) buf), (unat t - 12) div 2)"
    by (simp add: parseSerialType_large)
  show "13 \<le> unat t \<and> odd (unat t) \<and> (unat t - 13) div 2 \<le> length buf \<longrightarrow>
        parseSerialType t buf
          = Inr (VText (take ((unat t - 13) div 2) buf), (unat t - 13) div 2)"
    by (simp add: parseSerialType_large)
  show "\<forall>w. serial_width (unat t) = Some w \<and> length buf < w \<longrightarrow> isl (parseSerialType t buf)"
    using parseSerialType_short by blast
qed

theorem parseSerialType_table_witness:
  "(\<exists>v. parseSerialType 2 [0xFF, 0xFE] = Inr (VInt v, 2) \<and> sint v = - 2)
   \<and> (\<exists>f. parseSerialType 7 [0, 0, 0, 0, 0, 0, 1, 2] = Inr (VFloat f, 8) \<and> unat f = 258)
   \<and> parseSerialType 14 [0xFF, 0xFE] = Inr (VBlob [0xFF], 1)
   \<and> parseSerialType 15 [0x41, 0x42] = Inr (VText [0x41], 1)
   \<and> isl (parseSerialType 2 [0x01])"
proof -
  have s: "be_signed [0xFF, 0xFE] = - 2" by (simp add: be_signed_def be_nat_def)
  have n: "be_nat [0, 0, 0, 0, 0, 0, 1, 2] = 258" by (simp add: be_nat_def)
  have 1: "\<exists>v. parseSerialType 2 [0xFF, 0xFE] = Inr (VInt v, 2) \<and> sint v = - 2"
    using parseSerialType_table [of "[0xFF, 0xFE]" 14] s by simp
  have 2: "\<exists>f. parseSerialType 7 [0, 0, 0, 0, 0, 0, 1, 2] = Inr (VFloat f, 8) \<and> unat f = 258"
    using parseSerialType_table [of "[0, 0, 0, 0, 0, 0, 1, 2]" 14] n by simp
  have 3: "parseSerialType 14 [0xFF, 0xFE] = Inr (VBlob [0xFF], 1)"
    using parseSerialType_table [of "[0xFF, 0xFE]" 14] by simp
  have 4: "parseSerialType 15 [0x41, 0x42] = Inr (VText [0x41], 1)"
    using parseSerialType_table [of "[0x41, 0x42]" 15] by simp
  have 5: "isl (parseSerialType 2 [0x01])"
    using parseSerialType_table [of "[0x01]" 2] by (simp add: serial_width_def)
  from 1 2 3 4 5 show ?thesis by blast
qed

text \<open>
  Claim C4. The 24-bit and 48-bit integers are sign-extended from their most significant
  byte: the value is the top byte read as a signed 8-bit number, shifted past the
  remaining bytes, plus those bytes read unsigned. So \<open>FF 00 00\<close> is \<open>-65536\<close>,
  \<open>FF FF FF\<close> is \<open>-1\<close>, \<open>80 00 00\<close> is \<open>-8388608\<close>, six bytes \<open>FF\<close> under code 5
  are \<open>-1\<close>, and the widths consumed are 3 and 6.
\<close>

theorem parseSerialType_sign_extends:
  "(3 \<le> length buf \<longrightarrow>
      (\<exists>v. parseSerialType 3 buf = Inr (VInt v, 3)
         \<and> sint v = sint (buf ! 0) * 2 ^ 16 + uint (buf ! 1) * 2 ^ 8 + uint (buf ! 2)))
   \<and> (6 \<le> length buf \<longrightarrow>
      (\<exists>v. parseSerialType 5 buf = Inr (VInt v, 6)
         \<and> sint v = sint (buf ! 0) * 2 ^ 40 + int (be_nat (take 5 (drop 1 buf)))))
   \<and> parseSerialType 3 [0xFF, 0x00, 0x00] = Inr (VInt (- 65536), 3)
   \<and> parseSerialType 3 [0xFF, 0xFF, 0xFF] = Inr (VInt (- 1), 3)
   \<and> parseSerialType 3 [0x80, 0x00, 0x00] = Inr (VInt (- 8388608), 3)
   \<and> parseSerialType 5 [0xFF, 0xFF, 0xFF, 0xFF, 0xFF, 0xFF] = Inr (VInt (- 1), 6)
   \<and> sint (- 65536 :: 64 word) = - 65536
   \<and> sint (- 1 :: 64 word) = - 1
   \<and> sint (- 8388608 :: 64 word) = - 8388608"
proof (intro conjI impI)
  assume "3 \<le> length buf"
  then show "\<exists>v. parseSerialType 3 buf = Inr (VInt v, 3)
         \<and> sint v = sint (buf ! 0) * 2 ^ 16 + uint (buf ! 1) * 2 ^ 8 + uint (buf ! 2)"
    using int24 [of "buf ! 0" "buf ! 1" "buf ! 2"] by (simp add: parseSerialType_def)
next
  assume len: "6 \<le> length buf"
  have "take 6 buf = take 1 buf @ take 5 (drop 1 buf)"
    using take_add [of 1 5 buf] by simp
  moreover have "take 1 buf = [buf ! 0]" using len by (simp add: take_as_nths)
  ultimately have "be_signed (take 6 buf)
      = sint (buf ! 0) * 2 ^ 40 + int (be_nat (take 5 (drop 1 buf)))"
    using be_signed_top [of "buf ! 0" "take 5 (drop 1 buf)"] len by simp
  then show "\<exists>v. parseSerialType 5 buf = Inr (VInt v, 6)
         \<and> sint v = sint (buf ! 0) * 2 ^ 40 + int (be_nat (take 5 (drop 1 buf)))"
    using code5 [OF len] len by (simp add: parseSerialType_def)
qed (simp_all add: parseSerialType_def be_uint32_def mask_eq_exp_minus_1)

theorem parseSerialType_sign_extends_witness:
  "(\<exists>v. parseSerialType 3 [0x80, 0x01, 0x02] = Inr (VInt v, 3) \<and> sint v = - 8388350)
   \<and> (\<exists>v. parseSerialType 5 [0xFF, 0, 0, 0, 0, 0x07] = Inr (VInt v, 6)
          \<and> sint v = - 1099511627769)"
proof -
  have 1: "\<exists>v. parseSerialType 3 [0x80, 0x01, 0x02] = Inr (VInt v, 3) \<and> sint v = - 8388350"
    using parseSerialType_sign_extends [of "[0x80, 0x01, 0x02]"] by simp
  have "int (be_nat [0, 0, 0, 0, 0x07]) = 7" by (simp add: be_nat_def)
  then have 2: "\<exists>v. parseSerialType 5 [0xFF, 0, 0, 0, 0, 0x07] = Inr (VInt v, 6)
          \<and> sint v = - 1099511627769"
    using parseSerialType_sign_extends [of "[0xFF, 0, 0, 0, 0, 0x07]"] by simp
  from 1 2 show ?thesis by blast
qed

text \<open>
  Claim C7. Serial-type codes 10 and 11 are a decode error for every buffer, whatever
  its contents or length.
\<close>

theorem parseSerialType_reserved_codes:
  "parseSerialType 10 buf = Inl UnknownSerialType
   \<and> parseSerialType 11 buf = Inl UnknownSerialType"
  by (simp add: parseSerialType_def)

end
